theory Spec2Isabelle
  imports Main
begin

section \<open>The IR module as \<open>compiler/optimizer.go\<close> reads and writes it\<close>

text \<open>
  \<open>Optimize\<close> and \<open>replacePanicsWithTrap\<close> work on an LLVM module through the Go
  bindings. The embedding keeps the part of the module those two functions touch: the
  functions of the module with their name, linkage, attributes and basic blocks, and the
  instructions of a block with their operands. An \<open>llvm.Value\<close> is a handle; the handle of
  an instruction is its identifier, the handle of a function is its name (the symbol
  table of an LLVM module holds each name once), and the nil handle is \<open>VNil\<close>.
  A handle carries the type of the value it stands for, as an operand does in LLVM's
  textual IR, so that \<open>ptr.Type()\<close> is a function of the handle.
\<close>

datatype ty = I1 | Ty nat

datatype val =
    VNil
  | VFunc string
  | VInst nat ty
  | VNull ty
  | VOther nat ty

datatype int_pred = IntEQ | IntNE

datatype instr =
    Call val "val list"
  | BitCast val
  | ICmp int_pred val val
  | Other nat "val list"

record inst =
  inst_id :: nat
  inst_body :: instr

datatype linkage = ExternalLinkage | InternalLinkage | OtherLinkage nat

record func =
  fn_name :: string
  fn_linkage :: linkage
  fn_attrs :: "string list"
  fn_blocks :: "inst list list"

type_synonym modl = "func list"

text \<open>
  The operand list of an instruction in LLVM's layout: the arguments of a call come
  first and the called value is the last operand.
\<close>

fun operands :: "instr \<Rightarrow> val list" where
  "operands (Call f args) = args @ [f]"
| "operands (BitCast v) = [v]"
| "operands (ICmp p a b) = [a, b]"
| "operands (Other k vs) = vs"

text \<open>
  \<open>use.Operand(0)\<close>. Every instruction that uses a value has an operand, so the empty
  case is never reached from a use list; it yields the nil handle.
\<close>

definition Operand0 :: "instr \<Rightarrow> val" where
  "Operand0 b = (case operands b of [] \<Rightarrow> VNil | v # vs \<Rightarrow> v)"

fun type_of :: "val \<Rightarrow> ty" where
  "type_of (VInst k t) = t"
| "type_of (VNull t) = t"
| "type_of (VOther k t) = t"
| "type_of (VFunc n) = Ty 0"
| "type_of VNil = Ty 0"

definition ConstPointerNull :: "ty \<Rightarrow> val" where
  "ConstPointerNull t = VNull t"

definition all_insts :: "modl \<Rightarrow> inst list" where
  "all_insts m = concat (concat (map fn_blocks m))"

definition find_inst :: "modl \<Rightarrow> nat \<Rightarrow> inst option" where
  "find_inst m u = find (\<lambda>i. inst_id i = u) (all_insts m)"

text \<open>\<open>c.mod.NamedFunction(name)\<close>: the handle of the function, nil when there is none.\<close>

definition NamedFunction :: "modl \<Rightarrow> string \<Rightarrow> val" where
  "NamedFunction m n = (if n \<in> set (map fn_name m) then VFunc n else VNil)"

text \<open>
  Modelled from the spec: \<open>getUses\<close> is defined outside \<open>optimizer.go\<close>. The spec's data
  model says of the use list: for a given function or value, the instructions
  referencing it. The model lists the handle of the referencing instruction once for
  every operand that is the value, in module order, and nothing for the nil handle.
\<close>

definition getUses :: "modl \<Rightarrow> val \<Rightarrow> nat list" where
  "getUses m v =
     (if v = VNil then []
      else concat (map (\<lambda>i. map (\<lambda>x. inst_id i) (filter (\<lambda>x. x = v) (operands (inst_body i))))
                       (all_insts m)))"

definition map_blocks :: "(inst list \<Rightarrow> inst list) \<Rightarrow> modl \<Rightarrow> modl" where
  "map_blocks f m = map (\<lambda>fn. fn\<lparr>fn_blocks := map f (fn_blocks fn)\<rparr>) m"

fun insert_before :: "nat \<Rightarrow> inst \<Rightarrow> inst list \<Rightarrow> inst list" where
  "insert_before u new [] = []"
| "insert_before u new (i # rest) =
     (if inst_id i = u then new # i # rest else i # insert_before u new rest)"

text \<open>
  Every handle written in the module: the instructions and the instructions their
  operands name. A new instruction is a new object, so its handle is none of these.
\<close>

fun val_ids :: "val \<Rightarrow> nat list" where
  "val_ids (VInst k t) = [k]"
| "val_ids v = []"

definition inst_handles :: "inst \<Rightarrow> nat list" where
  "inst_handles i = inst_id i # concat (map val_ids (operands (inst_body i)))"

definition fresh_id :: "modl \<Rightarrow> nat" where
  "fresh_id m = Suc (Max (set (0 # concat (map inst_handles (all_insts m)))))"

fun subst_val :: "nat \<Rightarrow> val \<Rightarrow> val \<Rightarrow> val" where
  "subst_val u new (VInst k t) = (if k = u then new else VInst k t)"
| "subst_val u new v = v"

fun map_operands :: "(val \<Rightarrow> val) \<Rightarrow> instr \<Rightarrow> instr" where
  "map_operands g (Call f args) = Call (g f) (map g args)"
| "map_operands g (BitCast v) = BitCast (g v)"
| "map_operands g (ICmp p a b) = ICmp p (g a) (g b)"
| "map_operands g (Other k vs) = Other k (map g vs)"

text \<open>\<open>use.ReplaceAllUsesWith(new)\<close>: every operand that is the instruction \<open>u\<close> becomes \<open>new\<close>.\<close>

definition ReplaceAllUsesWith :: "nat \<Rightarrow> val \<Rightarrow> modl \<Rightarrow> modl" where
  "ReplaceAllUsesWith u new m =
     map_blocks (map (\<lambda>i. i\<lparr>inst_body := map_operands (subst_val u new) (inst_body i)\<rparr>)) m"

text \<open>\<open>use.EraseFromParentAsInstruction()\<close>.\<close>

definition EraseFromParentAsInstruction :: "nat \<Rightarrow> modl \<Rightarrow> modl" where
  "EraseFromParentAsInstruction u m = map_blocks (filter (\<lambda>i. inst_id i \<noteq> u)) m"

text \<open>\<open>fn.SetLinkage\<close> and \<open>fn.AddFunctionAttr\<close> on the function behind a handle.\<close>

definition SetLinkage :: "string \<Rightarrow> linkage \<Rightarrow> modl \<Rightarrow> modl" where
  "SetLinkage n l m = map (\<lambda>f. if fn_name f = n then f\<lparr>fn_linkage := l\<rparr> else f) m"

definition AddFunctionAttr :: "string \<Rightarrow> func \<Rightarrow> func" where
  "AddFunctionAttr a f = (if a \<in> set (fn_attrs f) then f else f\<lparr>fn_attrs := fn_attrs f @ [a]\<rparr>)"

section \<open>The compiler state, the collaborators and the ways a call ends\<close>

text \<open>
  A Go \<open>error\<close> is a value with a message. A fault ends the run without a return: the Go
  \<open>panic\<close> of \<open>replacePanicsWithTrap\<close>, or a handle that is nil or erased reaching LLVM.
\<close>

datatype error = Error string

datatype fault = GoPanic string | InvalidHandle

datatype exit = Returns "error option" | Panics fault

datatype pmbuilder_inliner = NoInliner | InlinerWithThreshold nat

record pmbuilder =
  OptLevel :: int
  SizeLevel :: int
  Inliner :: pmbuilder_inliner
  CoroutinePasses :: bool

datatype pass =
    GlobalOptimizerPass
  | ConstantPropagationPass
  | AggressiveDCEPass
  | FunctionAttrsPass
  | PopulatedFunc pmbuilder
  | Populated pmbuilder

datatype verdict = CheckPassed | CheckRejected | CheckPanicked fault

datatype event =
    EvReplacePanicsWithTrap
  | EvCheckModule verdict
  | EvRunFunc "pass list"
  | EvRun "pass list"
  | EvOptimizeMaps
  | EvOptimizeStringToBytes
  | EvOptimizeAllocs
  | EvLowerInterfaces
  | EvLowerFuncValues
  | EvLowerIsnil
  | EvLowerGoroutines "error option"
  | EvVerify "error option"
  | EvOptsize
  | EvUndoExports
  | EvAddGlobalsBitmap bool
  | EvMakeGCStackSlots bool

text \<open>
  The fields of \<open>Compiler\<close> that \<open>optimizer.go\<close> reads: the module, the position of the
  instruction builder (before which instruction it inserts), and the two configuration
  fields. \<open>trace\<close> is the log of the phases entered, in order; it is what the sequencing
  properties are stated on.
\<close>

record compiler =
  c_mod :: modl
  insert_point :: "nat option"
  PanicStrategy :: string
  VerifyIR :: bool
  trace :: "event list"

text \<open>
  The callees of \<open>Optimize\<close> that are not defined in \<open>optimizer.go\<close> are parameters. The
  LLVM pass managers, the \<open>transform\<close> package and the lowering methods act on the module;
  \<open>LowerGoroutines\<close> also returns an error; the two GC steps return whether they changed
  the module; \<open>Verify\<close> returns an error or nil. The result of \<open>c.checkModule()\<close> is not
  used by its caller (line 28 is an expression statement), so whatever that function
  reports about a module it rejects is either a value that is dropped or a panic; the
  parameter \<open>checkModule\<close> covers both.
\<close>

record env =
  checkModule :: "modl \<Rightarrow> verdict"
  RunFunc :: "pass list \<Rightarrow> string \<Rightarrow> modl \<Rightarrow> modl"
  Run :: "pass list \<Rightarrow> modl \<Rightarrow> modl"
  OptimizeMaps :: "modl \<Rightarrow> modl"
  OptimizeStringToBytes :: "modl \<Rightarrow> modl"
  OptimizeAllocs :: "modl \<Rightarrow> modl"
  LowerInterfaces :: "modl \<Rightarrow> modl"
  LowerFuncValues :: "modl \<Rightarrow> modl"
  LowerGoroutines :: "modl \<Rightarrow> error option \<times> modl"
  Verify :: "modl \<Rightarrow> error option"
  getFunctionsUsedInTransforms :: "string list"
  addGlobalsBitmap :: "modl \<Rightarrow> bool \<times> modl"
  makeGCStackSlots :: "modl \<Rightarrow> bool \<times> modl"

definition emit :: "event \<Rightarrow> compiler \<Rightarrow> compiler" where
  "emit e c = c\<lparr>trace := trace c @ [e]\<rparr>"

definition SetInsertPointBefore :: "nat \<Rightarrow> compiler \<Rightarrow> compiler" where
  "SetInsertPointBefore u c = c\<lparr>insert_point := Some u\<rparr>"

text \<open>
  The builder inserts a new instruction at its position; with no position the
  instruction is created outside every block.
\<close>

definition build :: "instr \<Rightarrow> compiler \<Rightarrow> nat \<times> compiler" where
  "build b c =
     (let k = fresh_id (c_mod c) in
      (k, case insert_point c of
            None \<Rightarrow> c
          | Some u \<Rightarrow>
              c\<lparr>c_mod := map_blocks (insert_before u \<lparr>inst_id = k, inst_body = b\<rparr>) (c_mod c)\<rparr>))"

text \<open>
  \<open>c.builder.CreateCall(fn, args, "")\<close>. LLVM reads the function type through the callee,
  so a nil callee is a fault.
\<close>

definition CreateCall :: "val \<Rightarrow> val list \<Rightarrow> compiler \<Rightarrow> fault + nat \<times> compiler" where
  "CreateCall fn args c = (if fn = VNil then Inl InvalidHandle else Inr (build (Call fn args) c))"

definition CreateICmp :: "int_pred \<Rightarrow> val \<Rightarrow> val \<Rightarrow> compiler \<Rightarrow> val \<times> compiler" where
  "CreateICmp p a b c = (case build (ICmp p a b) c of (k, c') \<Rightarrow> (VInst k I1, c'))"

section \<open>\<open>replacePanicsWithTrap\<close> (lines 145 to 159)\<close>

text \<open>
  A \<open>range\<close> loop whose body may end the run: the remaining elements are not visited
  after a fault.
\<close>

fun forEach :: "('a \<Rightarrow> compiler \<Rightarrow> fault option \<times> compiler) \<Rightarrow> 'a list \<Rightarrow> compiler
    \<Rightarrow> fault option \<times> compiler" where
  "forEach body [] c = (None, c)"
| "forEach body (x # xs) c =
     (case body x c of
        (Some flt, c') \<Rightarrow> (Some flt, c')
      | (None, c') \<Rightarrow> forEach body xs c')"

definition IsACallInst :: "instr \<Rightarrow> bool" where
  "IsACallInst b = (case b of Call f args \<Rightarrow> True | _ \<Rightarrow> False)"

definition CalledValue :: "instr \<Rightarrow> val" where
  "CalledValue b = (case b of Call f args \<Rightarrow> f | _ \<Rightarrow> VNil)"

text \<open>
  The body of the inner loop (lines 153 to 157) for one element of the use list. The
  handle is looked up in the module as it is now; a handle whose instruction is gone is
  a fault.
\<close>

definition trapUse :: "val \<Rightarrow> val \<Rightarrow> nat \<Rightarrow> compiler \<Rightarrow> fault option \<times> compiler" where
  "trapUse trap fn use c =
     (case find_inst (c_mod c) use of
        None \<Rightarrow> (Some InvalidHandle, c)
      | Some i \<Rightarrow>
          if \<not> IsACallInst (inst_body i) \<or> CalledValue (inst_body i) \<noteq> fn
          then (Some (GoPanic ''expected use of a panic function to be a call''), c)
          else (let c1 = SetInsertPointBefore use c in
                case CreateCall trap [] c1 of
                  Inl flt \<Rightarrow> (Some flt, c1)
                | Inr (k, c2) \<Rightarrow> (None, c2)))"

definition trapName :: "val \<Rightarrow> string \<Rightarrow> compiler \<Rightarrow> fault option \<times> compiler" where
  "trapName trap name c =
     (let fn = NamedFunction (c_mod c) name in
      if fn = VNil then (None, c)
      else forEach (trapUse trap fn) (getUses (c_mod c) fn) c)"

definition replacePanicsWithTrap :: "compiler \<Rightarrow> fault option \<times> compiler" where
  "replacePanicsWithTrap c =
     (let trap = NamedFunction (c_mod c) ''llvm.trap'' in
      forEach (trapName trap) [''runtime._panic'', ''runtime.runtimePanic''] c)"

section \<open>The \<open>runtime.isnil\<close> rewrite (lines 67 to 81)\<close>

definition inst_of :: "modl \<Rightarrow> val \<Rightarrow> instr option" where
  "inst_of m v =
     (case v of VInst k t \<Rightarrow> map_option inst_body (find_inst m k) | _ \<Rightarrow> None)"

definition IsABitCastInst :: "modl \<Rightarrow> val \<Rightarrow> bool" where
  "IsABitCastInst m v = (case inst_of m v of Some (BitCast x) \<Rightarrow> True | _ \<Rightarrow> False)"

text \<open>\<open>ptr.Operand(0)\<close> on a handle: operand 0 of the instruction behind it.\<close>

definition Operand0_of :: "modl \<Rightarrow> val \<Rightarrow> val" where
  "Operand0_of m v = (case inst_of m v of Some b \<Rightarrow> Operand0 b | None \<Rightarrow> VNil)"

definition lowerIsnilUse :: "nat \<Rightarrow> compiler \<Rightarrow> fault option \<times> compiler" where
  "lowerIsnilUse use c =
     (case find_inst (c_mod c) use of
        None \<Rightarrow> (Some InvalidHandle, c)
      | Some i \<Rightarrow>
          (let c1 = SetInsertPointBefore use c;
               ptr = Operand0 (inst_body i);
               ptr = (if IsABitCastInst (c_mod c1) ptr then Operand0_of (c_mod c1) ptr else ptr);
               nilptr = ConstPointerNull (type_of ptr);
               (icmp, c2) = CreateICmp IntEQ ptr nilptr c1;
               c3 = c2\<lparr>c_mod := ReplaceAllUsesWith use icmp (c_mod c2)\<rparr>
           in (None, c3\<lparr>c_mod := EraseFromParentAsInstruction use (c_mod c3)\<rparr>)))"

definition lowerIsnil :: "compiler \<Rightarrow> fault option \<times> compiler" where
  "lowerIsnil c =
     (let isnil = NamedFunction (c_mod c) ''runtime.isnil'' in
      if isnil \<noteq> VNil then forEach lowerIsnilUse (getUses (c_mod c) isnil) c
      else (None, c))"

section \<open>\<open>Optimize\<close> (lines 12 to 141)\<close>

text \<open>
  LLVM's \<open>PassManagerBuilder\<close> starts with no inliner. Lines 13 to 20 set the two levels,
  give it an inliner when the threshold is not zero, and register the coroutine passes.
  \<open>optLevel\<close> and \<open>sizeLevel\<close> are only stored and compared, and the threshold only
  compared with zero and stored, so they are an \<open>int\<close> and a \<open>nat\<close> here.
\<close>

definition NewPassManagerBuilder :: pmbuilder where
  "NewPassManagerBuilder =
     \<lparr>OptLevel = 2, SizeLevel = 0, Inliner = NoInliner, CoroutinePasses = False\<rparr>"

definition UseInlinerWithThreshold :: "nat \<Rightarrow> pmbuilder \<Rightarrow> pmbuilder" where
  "UseInlinerWithThreshold t b = b\<lparr>Inliner := InlinerWithThreshold t\<rparr>"

definition configure :: "int \<Rightarrow> int \<Rightarrow> nat \<Rightarrow> pmbuilder" where
  "configure optLevel sizeLevel inlinerThreshold =
     (let builder = NewPassManagerBuilder;
          builder = builder\<lparr>OptLevel := optLevel\<rparr>;
          builder = builder\<lparr>SizeLevel := sizeLevel\<rparr>;
          builder = (if inlinerThreshold \<noteq> 0 then UseInlinerWithThreshold inlinerThreshold builder
                     else builder)
      in builder\<lparr>CoroutinePasses := True\<rparr>)"

text \<open>A collaborator that acts on the module and returns nothing.\<close>

definition transform :: "event \<Rightarrow> (modl \<Rightarrow> modl) \<Rightarrow> compiler \<Rightarrow> compiler" where
  "transform e f c = emit e (c\<lparr>c_mod := f (c_mod c)\<rparr>)"

text \<open>Lines 22 to 29: the trap rewrite and the module check, each behind its flag.\<close>

definition leading :: "env \<Rightarrow> compiler \<Rightarrow> fault option \<times> compiler" where
  "leading E c =
     (case (if PanicStrategy c = ''trap'' then replacePanicsWithTrap (emit EvReplacePanicsWithTrap c)
            else (None, c)) of
        (Some flt, c) \<Rightarrow> (Some flt, c)
      | (None, c) \<Rightarrow>
          if VerifyIR c
          then (let v = checkModule E (c_mod c); c = emit (EvCheckModule v) c in
                case v of CheckPanicked flt \<Rightarrow> (Some flt, c) | _ \<Rightarrow> (None, c))
          else (None, c))"

text \<open>
  The loop over the functions of the module (lines 36 to 38 and 121 to 123). Function
  passes neither add nor remove functions, so the loop visits the names the module has
  when the loop starts. \<open>InitializeFunc\<close> and \<open>FinalizeFunc\<close> around the loop belong to the
  same phase; what the pass manager does to the module is the parameter \<open>RunFunc\<close>. The
  function pass manager of line 32 is populated from the builder (line 34), the module
  pass manager of line 127 likewise (line 129).
\<close>

definition runFuncPasses :: "env \<Rightarrow> pass list \<Rightarrow> compiler \<Rightarrow> compiler" where
  "runFuncPasses E funcPasses c =
     transform (EvRunFunc funcPasses) (\<lambda>m. fold (RunFunc E funcPasses) (map fn_name m) m) c"

definition lowerGoroutines :: "env \<Rightarrow> compiler \<Rightarrow> error option \<times> compiler" where
  "lowerGoroutines E c =
     (case LowerGoroutines E (c_mod c) of
        (err, m) \<Rightarrow> (err, emit (EvLowerGoroutines err) (c\<lparr>c_mod := m\<rparr>)))"

definition goPasses :: "pass list" where
  "goPasses = [GlobalOptimizerPass, ConstantPropagationPass, AggressiveDCEPass, FunctionAttrsPass]"

text \<open>Lines 41 to 86, the branch for \<open>optLevel > 0\<close>.\<close>

definition optimizeBranch :: "env \<Rightarrow> compiler \<Rightarrow> exit option \<times> compiler" where
  "optimizeBranch E c =
     (let c = transform (EvRun goPasses) (Run E goPasses) c;
          c = transform EvOptimizeMaps (OptimizeMaps E) c;
          c = transform EvOptimizeStringToBytes (OptimizeStringToBytes E) c;
          c = transform EvOptimizeAllocs (OptimizeAllocs E) c;
          c = transform EvLowerInterfaces (LowerInterfaces E) c;
          c = transform EvLowerFuncValues (LowerFuncValues E) c;
          c = transform (EvRun goPasses) (Run E goPasses) c;
          c = transform EvOptimizeAllocs (OptimizeAllocs E) c;
          c = transform EvOptimizeStringToBytes (OptimizeStringToBytes E) c
      in case lowerIsnil (emit EvLowerIsnil c) of
           (Some flt, c) \<Rightarrow> (Some (Panics flt), c)
         | (None, c) \<Rightarrow>
             (case lowerGoroutines E c of
                (Some err, c) \<Rightarrow> (Some (Returns (Some err)), c)
              | (None, c) \<Rightarrow> (None, c)))"

text \<open>Lines 87 to 95, the branch for the other levels.\<close>

definition lowerBranch :: "env \<Rightarrow> compiler \<Rightarrow> exit option \<times> compiler" where
  "lowerBranch E c =
     (let c = transform EvLowerInterfaces (LowerInterfaces E) c;
          c = transform EvLowerFuncValues (LowerFuncValues E) c
      in case lowerGoroutines E c of
           (Some err, c) \<Rightarrow> (Some (Returns (Some err)), c)
         | (None, c) \<Rightarrow> (None, c))"

definition verify :: "env \<Rightarrow> compiler \<Rightarrow> error option \<times> compiler" where
  "verify E c = (let err = Verify E (c_mod c) in (err, emit (EvVerify err) c))"

text \<open>Lines 100 to 108.\<close>

definition addOptsize :: "compiler \<Rightarrow> compiler" where
  "addOptsize c = transform EvOptsize (map (AddFunctionAttr ''optsize'')) c"

text \<open>Lines 110 to 117: the loop that undoes the exporting of the listed functions.\<close>

definition undoExport :: "string \<Rightarrow> modl \<Rightarrow> modl" where
  "undoExport name m =
     (case NamedFunction m name of
        VFunc n \<Rightarrow> SetLinkage n InternalLinkage m
      | _ \<Rightarrow> m)"

definition undoExports :: "string list \<Rightarrow> modl \<Rightarrow> modl" where
  "undoExports names m = fold undoExport names m"

definition addGlobalsBitmap_step :: "env \<Rightarrow> compiler \<Rightarrow> bool \<times> compiler" where
  "addGlobalsBitmap_step E c =
     (case addGlobalsBitmap E (c_mod c) of
        (b, m) \<Rightarrow> (b, emit (EvAddGlobalsBitmap b) (c\<lparr>c_mod := m\<rparr>)))"

definition makeGCStackSlots_step :: "env \<Rightarrow> compiler \<Rightarrow> bool \<times> compiler" where
  "makeGCStackSlots_step E c =
     (case makeGCStackSlots E (c_mod c) of
        (b, m) \<Rightarrow> (b, emit (EvMakeGCStackSlots b) (c\<lparr>c_mod := m\<rparr>)))"

text \<open>Lines 132 to 140.\<close>

definition gcPasses :: "env \<Rightarrow> compiler \<Rightarrow> exit \<times> compiler" where
  "gcPasses E c =
     (case addGlobalsBitmap_step E c of
        (hasGCPass, c) \<Rightarrow>
          (case makeGCStackSlots_step E c of
             (b, c) \<Rightarrow>
               (let hasGCPass = (b \<or> hasGCPass) in
                if hasGCPass
                then (case verify E c of
                        (Some err, c) \<Rightarrow>
                          (Returns (Some (Error ''GC pass caused a verification failure'')), c)
                      | (None, c) \<Rightarrow> (Returns None, c))
                else (Returns None, c))))"

text \<open>Lines 96 to 140, what follows the two branches.\<close>

definition afterLowering :: "env \<Rightarrow> pmbuilder \<Rightarrow> pass list \<Rightarrow> int \<Rightarrow> compiler \<Rightarrow> exit \<times> compiler" where
  "afterLowering E builder funcPasses sizeLevel c =
     (case verify E c of
        (Some err, c) \<Rightarrow>
          (Returns (Some (Error ''optimizations caused a verification failure'')), c)
      | (None, c) \<Rightarrow>
          (let c = (if sizeLevel \<ge> 2 then addOptsize c else c);
               c = transform EvUndoExports (undoExports (getFunctionsUsedInTransforms E)) c;
               c = runFuncPasses E funcPasses c;
               modPasses = [Populated builder];
               c = transform (EvRun modPasses) (Run E modPasses) c
           in gcPasses E c))"

definition Optimize :: "env \<Rightarrow> int \<Rightarrow> int \<Rightarrow> nat \<Rightarrow> compiler \<Rightarrow> exit \<times> compiler" where
  "Optimize E optLevel sizeLevel inlinerThreshold c =
     (let builder = configure optLevel sizeLevel inlinerThreshold in
      case leading E c of
        (Some flt, c) \<Rightarrow> (Panics flt, c)
      | (None, c) \<Rightarrow>
          (let funcPasses = [PopulatedFunc builder];
               c = runFuncPasses E funcPasses c
           in case (if optLevel > 0 then optimizeBranch E c else lowerBranch E c) of
                (Some x, c) \<Rightarrow> (x, c)
              | (None, c) \<Rightarrow> afterLowering E builder funcPasses sizeLevel c))"

section \<open>Runs of \<open>Optimize\<close>: what is observed of one call\<close>

text \<open>
  The two rewrites that work on instructions change the module and the position of the
  builder, and nothing else of the compiler state.
\<close>

definition same_run :: "compiler \<Rightarrow> compiler \<Rightarrow> bool" where
  "same_run c c' \<longleftrightarrow> trace c' = trace c \<and> PanicStrategy c' = PanicStrategy c \<and> VerifyIR c' = VerifyIR c"

text \<open>
  What the callees reported during one run: the fault of the trap rewrite or of the
  \<open>runtime.isnil\<close> rewrite if there was one, the verdict of \<open>checkModule\<close>, the error of
  \<open>LowerGoroutines\<close>, the results of the two calls of \<open>Verify\<close> and the flags of the two GC
  steps. \<open>run_shape\<close> lists the phases a run with these reports goes through and how it
  ends; \<open>Optimize_shape\<close> below proves that every run of \<open>Optimize\<close> is of this shape.
\<close>

record obs =
  ob_trap :: "fault option"
  ob_check :: verdict
  ob_isnil :: "fault option"
  ob_lower :: "error option"
  ob_verify :: "error option"
  ob_gc1 :: bool
  ob_gc2 :: bool
  ob_gcverify :: "error option"

definition shape_leading :: "bool \<Rightarrow> bool \<Rightarrow> obs \<Rightarrow> event list \<times> fault option" where
  "shape_leading P V ob =
     (if P \<and> ob_trap ob \<noteq> None then ([EvReplacePanicsWithTrap], ob_trap ob)
      else ((if P then [EvReplacePanicsWithTrap] else []) @ (if V then [EvCheckModule (ob_check ob)] else []),
            if V then (case ob_check ob of CheckPanicked f \<Rightarrow> Some f | _ \<Rightarrow> None) else None))"

definition shape_lowering :: "obs \<Rightarrow> event list \<times> exit option" where
  "shape_lowering ob = ([EvLowerGoroutines (ob_lower ob)], map_option (\<lambda>e. Returns (Some e)) (ob_lower ob))"

definition shape_branch :: "int \<Rightarrow> obs \<Rightarrow> event list \<times> exit option" where
  "shape_branch optLevel ob =
     (if optLevel > 0 then
        (let evs = [EvRun goPasses, EvOptimizeMaps, EvOptimizeStringToBytes, EvOptimizeAllocs,
                    EvLowerInterfaces, EvLowerFuncValues, EvRun goPasses, EvOptimizeAllocs,
                    EvOptimizeStringToBytes, EvLowerIsnil] in
         case ob_isnil ob of
           Some f \<Rightarrow> (evs, Some (Panics f))
         | None \<Rightarrow> (evs @ fst (shape_lowering ob), snd (shape_lowering ob)))
      else ([EvLowerInterfaces, EvLowerFuncValues] @ fst (shape_lowering ob), snd (shape_lowering ob)))"

definition shape_gc :: "obs \<Rightarrow> event list \<times> exit" where
  "shape_gc ob =
     ([EvAddGlobalsBitmap (ob_gc1 ob), EvMakeGCStackSlots (ob_gc2 ob)]
        @ (if ob_gc1 ob \<or> ob_gc2 ob then [EvVerify (ob_gcverify ob)] else []),
      if (ob_gc1 ob \<or> ob_gc2 ob) \<and> ob_gcverify ob \<noteq> None
      then Returns (Some (Error ''GC pass caused a verification failure''))
      else Returns None)"

definition shape_after :: "pmbuilder \<Rightarrow> int \<Rightarrow> obs \<Rightarrow> event list \<times> exit" where
  "shape_after b sizeLevel ob =
     (case ob_verify ob of
        Some e \<Rightarrow> ([EvVerify (Some e)], Returns (Some (Error ''optimizations caused a verification failure'')))
      | None \<Rightarrow>
          ([EvVerify None] @ (if sizeLevel \<ge> 2 then [EvOptsize] else [])
             @ [EvUndoExports, EvRunFunc [PopulatedFunc b], EvRun [Populated b]] @ fst (shape_gc ob),
           snd (shape_gc ob)))"

definition run_shape :: "bool \<Rightarrow> bool \<Rightarrow> int \<Rightarrow> int \<Rightarrow> nat \<Rightarrow> obs \<Rightarrow> event list \<times> exit" where
  "run_shape P V optLevel sizeLevel t ob =
     (let b = configure optLevel sizeLevel t in
      case shape_leading P V ob of
        (evs, Some f) \<Rightarrow> (evs, Panics f)
      | (evs, None) \<Rightarrow>
          (case shape_branch optLevel ob of
             (evs2, Some x) \<Rightarrow> (evs @ [EvRunFunc [PopulatedFunc b]] @ evs2, x)
           | (evs2, None) \<Rightarrow>
               (evs @ [EvRunFunc [PopulatedFunc b]] @ evs2 @ fst (shape_after b sizeLevel ob),
                snd (shape_after b sizeLevel ob))))"

text \<open>
  How a run ends, and the phases it logs (the part of the trace that the call appends).
\<close>

definition run_exit :: "env \<Rightarrow> int \<Rightarrow> int \<Rightarrow> nat \<Rightarrow> compiler \<Rightarrow> exit" where
  "run_exit E optLevel sizeLevel t c = fst (Optimize E optLevel sizeLevel t c)"

definition run_events :: "env \<Rightarrow> int \<Rightarrow> int \<Rightarrow> nat \<Rightarrow> compiler \<Rightarrow> event list" where
  "run_events E optLevel sizeLevel t c =
     drop (length (trace c)) (trace (snd (Optimize E optLevel sizeLevel t c)))"

text \<open>
  Kinds of phases: the lowering transforms, the optimizers of the \<open>transform\<close> package,
  the bundle \<open>goPasses\<close> of four module passes, and the two GC steps.
\<close>

fun is_lowering :: "event \<Rightarrow> bool" where
  "is_lowering EvLowerInterfaces = True"
| "is_lowering EvLowerFuncValues = True"
| "is_lowering EvLowerIsnil = True"
| "is_lowering (EvLowerGoroutines r) = True"
| "is_lowering e = False"

fun is_domain_opt :: "event \<Rightarrow> bool" where
  "is_domain_opt EvOptimizeMaps = True"
| "is_domain_opt EvOptimizeStringToBytes = True"
| "is_domain_opt EvOptimizeAllocs = True"
| "is_domain_opt e = False"

definition is_bundle :: "event \<Rightarrow> bool" where
  "is_bundle e \<longleftrightarrow> e = EvRun [GlobalOptimizerPass, ConstantPropagationPass, AggressiveDCEPass, FunctionAttrsPass]"

definition is_level_step :: "event \<Rightarrow> bool" where
  "is_level_step e \<longleftrightarrow> is_bundle e \<or> is_domain_opt e \<or> is_lowering e"

section \<open>Concrete collaborators and modules\<close>

text \<open>
  \<open>quiet\<close> changes nothing and reports no error; the second GC step reports a change.
  The other collaborators differ from it in one callee.
\<close>

definition quiet :: env where
  "quiet =
     \<lparr>checkModule = (\<lambda>m. CheckPassed),
      RunFunc = (\<lambda>ps n m. m),
      Run = (\<lambda>ps m. m),
      OptimizeMaps = (\<lambda>m. m),
      OptimizeStringToBytes = (\<lambda>m. m),
      OptimizeAllocs = (\<lambda>m. m),
      LowerInterfaces = (\<lambda>m. m),
      LowerFuncValues = (\<lambda>m. m),
      LowerGoroutines = (\<lambda>m. (None, m)),
      Verify = (\<lambda>m. None),
      getFunctionsUsedInTransforms = [''runtime.alloc'', ''runtime.free''],
      addGlobalsBitmap = (\<lambda>m. (False, m)),
      makeGCStackSlots = (\<lambda>m. (True, m))\<rparr>"

definition declared :: "string \<Rightarrow> func" where
  "declared n = \<lparr>fn_name = n, fn_linkage = ExternalLinkage, fn_attrs = [], fn_blocks = []\<rparr>"

definition sample_module :: modl where
  "sample_module =
     [declared ''llvm.trap'',
      declared ''runtime._panic'',
      declared ''runtime.isnil'',
      \<lparr>fn_name = ''runtime.alloc'', fn_linkage = ExternalLinkage, fn_attrs = [], fn_blocks = [[]]\<rparr>,
      \<lparr>fn_name = ''main'', fn_linkage = ExternalLinkage, fn_attrs = [],
       fn_blocks =
         [[\<lparr>inst_id = 1, inst_body = BitCast (VOther 0 (Ty 1))\<rparr>,
           \<lparr>inst_id = 2, inst_body = Call (VFunc ''runtime.isnil'') [VInst 1 (Ty 2)]\<rparr>,
           \<lparr>inst_id = 3, inst_body = Call (VFunc ''runtime.isnil'') [VOther 1 (Ty 2)]\<rparr>,
           \<lparr>inst_id = 4, inst_body = Other 0 [VInst 2 I1, VInst 3 I1]\<rparr>],
          [\<lparr>inst_id = 5, inst_body = Call (VFunc ''runtime._panic'') [VOther 2 (Ty 3)]\<rparr>,
           \<lparr>inst_id = 6, inst_body = Other 1 []\<rparr>]]\<rparr>]"

definition sample :: compiler where
  "sample = \<lparr>c_mod = sample_module, insert_point = None, PanicStrategy = ''trap'',
             VerifyIR = True, trace = []\<rparr>"

definition plain :: compiler where
  "plain = \<lparr>c_mod = [declared ''runtime.alloc'', declared ''main''], insert_point = None, PanicStrategy = ''print'',
             VerifyIR = True, trace = []\<rparr>"

text \<open>The two GC steps, and collaborators that fail in one place.\<close>

fun is_gc_step :: "event \<Rightarrow> bool" where
  "is_gc_step (EvAddGlobalsBitmap b) = True"
| "is_gc_step (EvMakeGCStackSlots b) = True"
| "is_gc_step e = False"

text \<open>The rewrites on instructions keep the names of the functions of the module.\<close>

definition same_names :: "compiler \<Rightarrow> compiler \<Rightarrow> bool" where
  "same_names c c' \<longleftrightarrow> map fn_name (c_mod c') = map fn_name (c_mod c)"

definition rejecting :: env where
  "rejecting = quiet\<lparr>checkModule := (\<lambda>m. CheckRejected)\<rparr>"

definition aborting :: env where
  "aborting = quiet\<lparr>checkModule := (\<lambda>m. CheckPanicked (GoPanic ''module uses global context''))\<rparr>"

definition failing_lowering :: env where
  "failing_lowering = quiet\<lparr>LowerGoroutines := (\<lambda>m. (Some (Error ''could not lower''), m))\<rparr>"

definition failing_gc_verify :: env where
  "failing_gc_verify =
     quiet\<lparr>Verify := (\<lambda>m. if \<exists>f \<in> set m. fn_name f = ''runtime.trackedGlobalsBitmap'' then Some (Error ''malformed'') else None),
           addGlobalsBitmap := (\<lambda>m. (True, m @ [declared ''runtime.trackedGlobalsBitmap'']))\<rparr>"

section \<open>What the trap rewrite does to the blocks\<close>

text \<open>
  The blocks of the module, the handles written in it and the identifiers of its
  instructions. \<open>with_traps g\<close> is a block with a call of \<open>llvm.trap\<close> put immediately
  before each instruction to which \<open>g\<close> gives an identifier (the identifier of the new
  call). \<open>calls n i\<close>: instruction \<open>i\<close> is a call whose called value is the function \<open>n\<close>;
  \<open>only_called n m\<close>: in \<open>m\<close> the function \<open>n\<close> is an operand only as the called value of
  a call.
\<close>

definition blocks :: "modl \<Rightarrow> inst list list" where
  "blocks m = concat (map fn_blocks m)"

definition handles :: "modl \<Rightarrow> nat list" where
  "handles m = concat (map inst_handles (all_insts m))"

definition ids :: "modl \<Rightarrow> nat list" where
  "ids m = map inst_id (all_insts m)"

definition trap_inst :: "nat \<Rightarrow> inst" where
  "trap_inst k = \<lparr>inst_id = k, inst_body = Call (VFunc ''llvm.trap'') []\<rparr>"

definition with_traps :: "(nat \<Rightarrow> nat option) \<Rightarrow> inst list \<Rightarrow> inst list" where
  "with_traps g blk =
     concat (map (\<lambda>i. case g (inst_id i) of Some k \<Rightarrow> [trap_inst k, i] | None \<Rightarrow> [i]) blk)"

definition calls :: "string \<Rightarrow> inst \<Rightarrow> bool" where
  "calls n i = (IsACallInst (inst_body i) \<and> CalledValue (inst_body i) = VFunc n)"

definition only_called :: "string \<Rightarrow> modl \<Rightarrow> bool" where
  "only_called n m =
     list_all (\<lambda>i. case inst_body i of
                      Call f args \<Rightarrow> VFunc n \<notin> set args
                    | b \<Rightarrow> VFunc n \<notin> set (operands b))
              (all_insts m)"

text \<open>
  The loop invariant of the trap rewrite, for the module \<open>m0\<close> it started from: the
  module now is \<open>m0\<close> with the traps of \<open>g\<close>, and the new identifiers are distinct and
  were not written in \<open>m0\<close>.
\<close>

definition trapped :: "modl \<Rightarrow> (nat \<Rightarrow> nat option) \<Rightarrow> compiler \<Rightarrow> bool" where
  "trapped m0 g c \<longleftrightarrow>
     c_mod c = map_blocks (with_traps g) m0 \<and> dom g \<subseteq> set (ids m0)
     \<and> (\<forall>k \<in> ran g. k \<notin> set (handles m0)) \<and> inj_on g (dom g)"

text \<open>
  A call of a panic function that the module declares, and the use list of a value
  within a list of instructions.
\<close>

definition panic_call :: "modl \<Rightarrow> inst \<Rightarrow> bool" where
  "panic_call m i \<longleftrightarrow>
     (NamedFunction m ''runtime._panic'' \<noteq> VNil \<and> calls ''runtime._panic'' i)
   \<or> (NamedFunction m ''runtime.runtimePanic'' \<noteq> VNil \<and> calls ''runtime.runtimePanic'' i)"

definition uses_in :: "val \<Rightarrow> inst list \<Rightarrow> nat list" where
  "uses_in v xs =
     concat (map (\<lambda>i. map (\<lambda>x. inst_id i) (filter (\<lambda>x. x = v) (operands (inst_body i)))) xs)"

text \<open>
  A weaker invariant, for modules in which a use is not a direct call: the instructions
  of \<open>m0\<close> are all there, in their order, and every other instruction is a trap.
\<close>

definition traps_added :: "modl \<Rightarrow> modl \<Rightarrow> bool" where
  "traps_added m0 m \<longleftrightarrow>
     map fn_name m = map fn_name m0
   \<and> filter (\<lambda>i. inst_id i \<in> set (ids m0)) (all_insts m) = all_insts m0
   \<and> (\<forall>i \<in> set (all_insts m). inst_id i \<notin> set (ids m0) \<longrightarrow> inst_body i = Call (VFunc ''llvm.trap'') [])"

text \<open>
  A module that calls \<open>runtime._panic\<close> and does not declare \<open>llvm.trap\<close>.
\<close>

definition untrapped_module :: modl where
  "untrapped_module =
     [declared ''runtime._panic'',
      \<lparr>fn_name = ''main'', fn_linkage = ExternalLinkage, fn_attrs = [],
       fn_blocks =
         [[\<lparr>inst_id = 1, inst_body = Call (VFunc ''runtime._panic'') [VOther 0 (Ty 1)]\<rparr>,
           \<lparr>inst_id = 2, inst_body = Other 0 []\<rparr>]]\<rparr>]"

definition untrapped :: compiler where
  "untrapped = \<lparr>c_mod = untrapped_module, insert_point = None, PanicStrategy = ''trap'',
                VerifyIR = False, trace = []\<rparr>"

section \<open>What the \<open>runtime.isnil\<close> rewrite does to the blocks\<close>

text \<open>
  \<open>unwrap m v\<close> removes one cast: the operand of \<open>v\<close> when \<open>v\<close> is a bitcast instruction of
  \<open>m\<close>, and \<open>v\<close> itself otherwise. \<open>compare_null k p\<close> is the instruction \<open>icmp eq p, null\<close>
  with identifier \<open>k\<close>, the null pointer being of the type of \<open>p\<close>. \<open>lowered m g\<close> is what
  becomes of an instruction when \<open>g\<close> gives the calls that are rewritten the identifier of
  their comparison: such a call becomes the comparison of its operand 0, unwrapped, with
  null; in any other instruction an operand that is the result of such a call becomes
  the result of its comparison.
\<close>

definition unwrap :: "modl \<Rightarrow> val \<Rightarrow> val" where
  "unwrap m v = (if IsABitCastInst m v then Operand0_of m v else v)"

definition redirect :: "(nat \<Rightarrow> nat option) \<Rightarrow> val \<Rightarrow> val" where
  "redirect g v =
     (case v of
        VInst j t \<Rightarrow> (case g j of Some k \<Rightarrow> VInst k I1 | None \<Rightarrow> v)
      | _ \<Rightarrow> v)"

definition compare_null :: "nat \<Rightarrow> val \<Rightarrow> inst" where
  "compare_null k p = \<lparr>inst_id = k, inst_body = ICmp IntEQ p (VNull (type_of p))\<rparr>"

definition lowered :: "modl \<Rightarrow> (nat \<Rightarrow> nat option) \<Rightarrow> inst \<Rightarrow> inst" where
  "lowered m g i =
     (case g (inst_id i) of
        Some k \<Rightarrow> compare_null k (unwrap m (Operand0 (inst_body i)))
      | None \<Rightarrow> i\<lparr>inst_body := map_operands (redirect g) (inst_body i)\<rparr>)"

text \<open>
  The calls of \<open>runtime.isnil\<close> in a module; \<open>from_isnil m v\<close>: the value is the result of
  one. \<open>pointer_operands_ok m\<close>: every call of \<open>runtime.isnil\<close> has an argument, and neither
  that argument nor what is under its cast is the result of a call of \<open>runtime.isnil\<close>
  (the helper takes a pointer and returns a boolean, so typed IR has no other calls).
  \<open>lowering\<close> is the loop invariant of the rewrite.
\<close>

definition isnil_ids :: "modl \<Rightarrow> nat list" where
  "isnil_ids m = map inst_id (filter (calls ''runtime.isnil'') (all_insts m))"

definition from_isnil :: "modl \<Rightarrow> val \<Rightarrow> bool" where
  "from_isnil m v = (case v of VInst j t \<Rightarrow> j \<in> set (isnil_ids m) | _ \<Rightarrow> False)"

definition pointer_operands_ok :: "modl \<Rightarrow> bool" where
  "pointer_operands_ok m =
     list_all (\<lambda>i. calls ''runtime.isnil'' i \<longrightarrow>
                 (case inst_body i of
                    Call f (p # args) \<Rightarrow> \<not> from_isnil m p \<and> \<not> from_isnil m (unwrap m p)
                  | _ \<Rightarrow> False))
              (all_insts m)"

definition lowering :: "modl \<Rightarrow> (nat \<Rightarrow> nat option) \<Rightarrow> compiler \<Rightarrow> bool" where
  "lowering m0 g c \<longleftrightarrow>
     c_mod c = map_blocks (map (lowered m0 g)) m0 \<and> dom g \<subseteq> set (isnil_ids m0)
     \<and> (\<forall>k \<in> ran g. k \<notin> set (handles m0)) \<and> inj_on g (dom g)
     \<and> (\<forall>h \<in> set (handles m0) \<union> ran g. h < fresh_id (c_mod c))"

text \<open>
  A module in which \<open>runtime.runtimePanic\<close> is called once and once passed as a value.
\<close>

definition escaping_module :: modl where
  "escaping_module =
     [declared ''llvm.trap'', declared ''runtime.runtimePanic'',
      \<lparr>fn_name = ''main'', fn_linkage = ExternalLinkage, fn_attrs = [],
       fn_blocks =
         [[\<lparr>inst_id = 1, inst_body = Call (VFunc ''runtime.runtimePanic'') [VOther 0 (Ty 1)]\<rparr>,
           \<lparr>inst_id = 2, inst_body = Other 7 [VFunc ''runtime.runtimePanic'', VOther 1 (Ty 2)]\<rparr>]]\<rparr>]"

definition escaping :: compiler where
  "escaping = \<lparr>c_mod = escaping_module, insert_point = None, PanicStrategy = ''trap'',
               VerifyIR = False, trace = []\<rparr>"

section \<open>Every run of \<open>Optimize\<close> has the shape of \<open>run_shape\<close>\<close>

lemma forEach_pres:
  assumes "\<And>x c r c'. body x c = (r, c') \<Longrightarrow> P c \<Longrightarrow> P c'"
  shows "forEach body xs c = (r, c') \<Longrightarrow> P c \<Longrightarrow> P c'"
proof (induction xs arbitrary: c)
  case Nil
  then show ?case by simp
next
  case (Cons x xs)
  obtain r1 c1 where b: "body x c = (r1, c1)" by (cases "body x c")
  have p1: "P c1" using assms[OF b] Cons.prems(2) .
  show ?case
  proof (cases r1)
    case None
    then show ?thesis using Cons.IH[of c1] Cons.prems(1) b p1 by simp
  next
    case (Some f)
    then show ?thesis using Cons.prems(1) b p1 by simp
  qed
qed

lemma build_same: "build b c = (k, c') \<Longrightarrow> same_run c0 c \<Longrightarrow> same_run c0 c'"
  by (auto simp: build_def same_run_def Let_def split: option.splits)

lemma trapUse_same: "trapUse trap fn u c = (r, c') \<Longrightarrow> same_run c0 c \<Longrightarrow> same_run c0 c'"
  by (auto simp: trapUse_def CreateCall_def build_def SetInsertPointBefore_def same_run_def Let_def
           split: option.splits if_splits sum.splits)

lemma same_run_refl: "same_run c c"
  by (simp add: same_run_def)

lemma trapName_same: "trapName trap n c = (r, c') \<Longrightarrow> same_run c0 c \<Longrightarrow> same_run c0 c'"
proof -
  assume a: "trapName trap n c = (r, c')" and s: "same_run c0 c"
  show ?thesis
  proof (cases "NamedFunction (c_mod c) n = VNil")
    case True
    then show ?thesis using a s by (simp add: trapName_def)
  next
    case False
    then have "forEach (trapUse trap (NamedFunction (c_mod c) n))
                 (getUses (c_mod c) (NamedFunction (c_mod c) n)) c = (r, c')"
      using a by (simp add: trapName_def Let_def)
    then show ?thesis
      by (rule forEach_pres[where P="same_run c0", rotated 1]) (fact s, erule trapUse_same)
  qed
qed

lemma replacePanicsWithTrap_same: "replacePanicsWithTrap c = (r, c') \<Longrightarrow> same_run c c'"
  unfolding replacePanicsWithTrap_def Let_def
  by (erule forEach_pres[where P="same_run c", rotated 1]) (rule same_run_refl, erule trapName_same)

lemma lowerIsnilUse_same: "lowerIsnilUse u c = (r, c') \<Longrightarrow> same_run c0 c \<Longrightarrow> same_run c0 c'"
  by (auto simp: lowerIsnilUse_def CreateICmp_def build_def SetInsertPointBefore_def same_run_def Let_def
           split: option.splits if_splits prod.splits)

lemma lowerIsnil_same: "lowerIsnil c = (r, c') \<Longrightarrow> same_run c c'"
proof -
  assume a: "lowerIsnil c = (r, c')"
  show ?thesis
  proof (cases "NamedFunction (c_mod c) ''runtime.isnil'' = VNil")
    case True
    then show ?thesis using a by (simp add: lowerIsnil_def same_run_refl)
  next
    case False
    then have "forEach lowerIsnilUse (getUses (c_mod c) (NamedFunction (c_mod c) ''runtime.isnil'')) c = (r, c')"
      using a by (simp add: lowerIsnil_def Let_def)
    then show ?thesis
      by (rule forEach_pres[where P="same_run c", rotated 1]) (rule same_run_refl, erule lowerIsnilUse_same)
  qed
qed

lemma map_blocks_names [simp]: "map fn_name (map_blocks f m) = map fn_name m"
  by (simp add: map_blocks_def comp_def)

lemma NamedFunction_map_blocks [simp]: "NamedFunction (map_blocks f m) n = NamedFunction m n"
  by (simp add: NamedFunction_def)

lemma transform_simps [simp]:
  "trace (transform e f c) = trace c @ [e]"
  "PanicStrategy (transform e f c) = PanicStrategy c"
  "VerifyIR (transform e f c) = VerifyIR c"
  "c_mod (transform e f c) = f (c_mod c)"
  by (simp_all add: transform_def emit_def)

lemma emit_simps [simp]:
  "trace (emit e c) = trace c @ [e]"
  "PanicStrategy (emit e c) = PanicStrategy c"
  "VerifyIR (emit e c) = VerifyIR c"
  "c_mod (emit e c) = c_mod c"
  by (simp_all add: emit_def)

lemma leading_shape:
  assumes "leading E c = (r, c')"
  shows "\<exists>tr v. \<forall>ob. ob_trap ob = tr \<longrightarrow> ob_check ob = v \<longrightarrow>
           trace c' = trace c @ fst (shape_leading (PanicStrategy c = ''trap'') (VerifyIR c) ob)
         \<and> r = snd (shape_leading (PanicStrategy c = ''trap'') (VerifyIR c) ob)"
proof (cases "PanicStrategy c = ''trap''")
  case True
  obtain r1 c1 where rp: "replacePanicsWithTrap (emit EvReplacePanicsWithTrap c) = (r1, c1)"
    by (cases "replacePanicsWithTrap (emit EvReplacePanicsWithTrap c)")
  have s: "same_run (emit EvReplacePanicsWithTrap c) c1"
    using replacePanicsWithTrap_same[OF rp] .
  show ?thesis
  proof (cases r1)
    case (Some f)
    then show ?thesis using assms True rp s
      by (intro exI[of _ r1] exI[of _ CheckPassed]) (auto simp: leading_def shape_leading_def same_run_def)
  next
    case None
    then show ?thesis using assms True rp s
      by (intro exI[of _ None] exI[of _ "checkModule E (c_mod c1)"])
         (auto simp: leading_def shape_leading_def same_run_def Let_def split: verdict.splits if_splits)
  qed
next
  case False
  then show ?thesis using assms
    by (intro exI[of _ None] exI[of _ "checkModule E (c_mod c)"])
       (auto simp: leading_def shape_leading_def Let_def split: verdict.splits if_splits)
qed

lemma lowerGoroutines_shape:
  assumes "lowerGoroutines E c = (r, c')"
  shows "trace c' = trace c @ [EvLowerGoroutines r]"
  using assms by (auto simp: lowerGoroutines_def split: prod.splits)

lemma branch_shape:
  assumes "(if optLevel > 0 then optimizeBranch E c else lowerBranch E c) = (r, c')"
  shows "\<exists>isn lw. \<forall>ob. ob_isnil ob = isn \<longrightarrow> ob_lower ob = lw \<longrightarrow>
           trace c' = trace c @ fst (shape_branch optLevel ob) \<and> r = snd (shape_branch optLevel ob)"
proof (cases "optLevel > 0")
  case False
  obtain lw c1 where l: "lowerGoroutines E (transform EvLowerFuncValues (LowerFuncValues E)
            (transform EvLowerInterfaces (LowerInterfaces E) c)) = (lw, c1)"
    by (cases "lowerGoroutines E (transform EvLowerFuncValues (LowerFuncValues E)
            (transform EvLowerInterfaces (LowerInterfaces E) c))")
  show ?thesis using False assms l lowerGoroutines_shape[OF l]
    by (intro exI[of _ None] exI[of _ lw])
       (auto simp: lowerBranch_def shape_branch_def shape_lowering_def Let_def split: option.splits)
next
  case True
  define c9 where "c9 = emit EvLowerIsnil
     (transform EvOptimizeStringToBytes (OptimizeStringToBytes E)
     (transform EvOptimizeAllocs (OptimizeAllocs E)
     (transform (EvRun goPasses) (Run E goPasses)
     (transform EvLowerFuncValues (LowerFuncValues E)
     (transform EvLowerInterfaces (LowerInterfaces E)
     (transform EvOptimizeAllocs (OptimizeAllocs E)
     (transform EvOptimizeStringToBytes (OptimizeStringToBytes E)
     (transform EvOptimizeMaps (OptimizeMaps E)
     (transform (EvRun goPasses) (Run E goPasses) c)))))))))"
  have t9: "trace c9 = trace c @ [EvRun goPasses, EvOptimizeMaps, EvOptimizeStringToBytes, EvOptimizeAllocs,
                    EvLowerInterfaces, EvLowerFuncValues, EvRun goPasses, EvOptimizeAllocs,
                    EvOptimizeStringToBytes, EvLowerIsnil]"
    by (simp add: c9_def)
  obtain isn c10 where i: "lowerIsnil c9 = (isn, c10)" by (cases "lowerIsnil c9")
  have t10: "trace c10 = trace c9" using lowerIsnil_same[OF i] by (simp add: same_run_def)
  have ob: "optimizeBranch E c =
     (case isn of Some flt \<Rightarrow> (Some (Panics flt), c10)
      | None \<Rightarrow> (case lowerGoroutines E c10 of (Some err, c) \<Rightarrow> (Some (Returns (Some err)), c)
                  | (None, c) \<Rightarrow> (None, c)))"
    using i by (simp add: optimizeBranch_def Let_def c9_def)
  show ?thesis
  proof (cases isn)
    case (Some f)
    then show ?thesis using True assms ob t9 t10
      by (intro exI[of _ isn] exI[of _ None]) (auto simp: shape_branch_def Let_def)
  next
    case None
    obtain lw c11 where l: "lowerGoroutines E c10 = (lw, c11)" by (cases "lowerGoroutines E c10")
    show ?thesis using None True assms ob t9 t10 l lowerGoroutines_shape[OF l]
      by (intro exI[of _ None] exI[of _ lw])
         (auto simp: shape_branch_def shape_lowering_def Let_def split: option.splits)
  qed
qed

lemma verify_shape: "verify E c = (r, c') \<Longrightarrow> trace c' = trace c @ [EvVerify r]"
  by (auto simp: verify_def Let_def)

lemma gc_shape:
  assumes "gcPasses E c = (x, c')"
  shows "\<exists>g1 g2 gv. \<forall>ob. ob_gc1 ob = g1 \<longrightarrow> ob_gc2 ob = g2 \<longrightarrow> ob_gcverify ob = gv \<longrightarrow>
           trace c' = trace c @ fst (shape_gc ob) \<and> x = snd (shape_gc ob)"
proof -
  obtain g1 c1 where a: "addGlobalsBitmap_step E c = (g1, c1)" by (cases "addGlobalsBitmap_step E c")
  obtain g2 c2 where b: "makeGCStackSlots_step E c1 = (g2, c2)" by (cases "makeGCStackSlots_step E c1")
  obtain gv c3 where v: "verify E c2 = (gv, c3)" by (cases "verify E c2")
  have t1: "trace c1 = trace c @ [EvAddGlobalsBitmap g1]"
    using a by (auto simp: addGlobalsBitmap_step_def split: prod.splits)
  have t2: "trace c2 = trace c1 @ [EvMakeGCStackSlots g2]"
    using b by (auto simp: makeGCStackSlots_step_def split: prod.splits)
  show ?thesis using assms a b v t1 t2 verify_shape[OF v]
    by (intro exI[of _ g1] exI[of _ g2] exI[of _ gv])
       (auto simp: gcPasses_def shape_gc_def Let_def split: option.splits if_splits)
qed

lemma after_shape:
  assumes "afterLowering E b [PopulatedFunc b] sizeLevel c = (x, c')"
  shows "\<exists>vr g1 g2 gv. \<forall>ob. ob_verify ob = vr \<longrightarrow> ob_gc1 ob = g1 \<longrightarrow> ob_gc2 ob = g2 \<longrightarrow> ob_gcverify ob = gv \<longrightarrow>
           trace c' = trace c @ fst (shape_after b sizeLevel ob) \<and> x = snd (shape_after b sizeLevel ob)"
proof -
  obtain vr c1 where v: "verify E c = (vr, c1)" by (cases "verify E c")
  note t1 = verify_shape[OF v]
  show ?thesis
  proof (cases vr)
    case (Some e)
    then show ?thesis using assms v t1
      by (intro exI[of _ vr] exI[of _ False] exI[of _ False] exI[of _ None])
         (auto simp: afterLowering_def shape_after_def)
  next
    case None
    define c5 where "c5 = transform (EvRun [Populated b]) (Run E [Populated b])
       (runFuncPasses E [PopulatedFunc b]
       (transform EvUndoExports (undoExports (getFunctionsUsedInTransforms E))
       (if sizeLevel \<ge> 2 then addOptsize c1 else c1)))"
    have t5: "trace c5 = trace c1 @ (if sizeLevel \<ge> 2 then [EvOptsize] else [])
             @ [EvUndoExports, EvRunFunc [PopulatedFunc b], EvRun [Populated b]]"
      by (simp add: c5_def runFuncPasses_def addOptsize_def)
    have g: "gcPasses E c5 = (x, c')"
      using assms v None by (simp add: afterLowering_def Let_def c5_def)
    from gc_shape[OF g] obtain g1 g2 gv where
      G: "\<forall>ob. ob_gc1 ob = g1 \<longrightarrow> ob_gc2 ob = g2 \<longrightarrow> ob_gcverify ob = gv \<longrightarrow>
           trace c' = trace c5 @ fst (shape_gc ob) \<and> x = snd (shape_gc ob)" by blast
    show ?thesis using None t1 t5 G
      by (intro exI[of _ None] exI[of _ g1] exI[of _ g2] exI[of _ gv])
         (auto simp: shape_after_def)
  qed
qed

lemma Optimize_shape:
  assumes "Optimize E optLevel sizeLevel t c = (x, c')"
  shows "\<exists>ob. trace c' = trace c @ fst (run_shape (PanicStrategy c = ''trap'') (VerifyIR c) optLevel sizeLevel t ob)
             \<and> x = snd (run_shape (PanicStrategy c = ''trap'') (VerifyIR c) optLevel sizeLevel t ob)"
proof -
  define b where "b = configure optLevel sizeLevel t"
  obtain r1 c1 where l: "leading E c = (r1, c1)" by (cases "leading E c")
  from leading_shape[OF l] obtain tr v where
    L: "\<And>ob. ob_trap ob = tr \<Longrightarrow> ob_check ob = v \<Longrightarrow>
           trace c1 = trace c @ fst (shape_leading (PanicStrategy c = ''trap'') (VerifyIR c) ob)
         \<and> r1 = snd (shape_leading (PanicStrategy c = ''trap'') (VerifyIR c) ob)" by blast
  show ?thesis
  proof (cases r1)
    case (Some f)
    let ?ob = "\<lparr>ob_trap = tr, ob_check = v, ob_isnil = None, ob_lower = None, ob_verify = None,
                ob_gc1 = False, ob_gc2 = False, ob_gcverify = None\<rparr>"
    have "x = Panics f" "c' = c1" using assms l Some by (simp_all add: Optimize_def Let_def)
    then show ?thesis using L[of ?ob] Some
      by (intro exI[of _ ?ob]) (auto simp: run_shape_def Let_def split: prod.splits)
  next
    case None
    define c2 where "c2 = runFuncPasses E [PopulatedFunc b] c1"
    have t2: "trace c2 = trace c1 @ [EvRunFunc [PopulatedFunc b]]"
      by (simp add: c2_def runFuncPasses_def)
    obtain r3 c3 where br: "(if optLevel > 0 then optimizeBranch E c2 else lowerBranch E c2) = (r3, c3)"
      by (cases "(if optLevel > 0 then optimizeBranch E c2 else lowerBranch E c2)")
    from branch_shape[OF br] obtain isn lw where
      B: "\<And>ob. ob_isnil ob = isn \<Longrightarrow> ob_lower ob = lw \<Longrightarrow>
           trace c3 = trace c2 @ fst (shape_branch optLevel ob) \<and> r3 = snd (shape_branch optLevel ob)"
      by blast
    show ?thesis
    proof (cases r3)
      case (Some x3)
      let ?ob = "\<lparr>ob_trap = tr, ob_check = v, ob_isnil = isn, ob_lower = lw, ob_verify = None,
                ob_gc1 = False, ob_gc2 = False, ob_gcverify = None\<rparr>"
      have "x = x3" "c' = c3" using assms l None br[unfolded c2_def b_def] Some
        by (simp_all add: Optimize_def Let_def)
      then show ?thesis using L[of ?ob] B[of ?ob] Some None t2
        by (intro exI[of _ ?ob]) (auto simp: run_shape_def Let_def b_def split: prod.splits)
    next
      case N3: None
      have a: "afterLowering E b [PopulatedFunc b] sizeLevel c3 = (x, c')"
        using assms l None br[unfolded c2_def b_def] N3 by (simp add: Optimize_def Let_def b_def)
      from after_shape[OF a] obtain vr g1 g2 gv where
        A: "\<And>ob. ob_verify ob = vr \<Longrightarrow> ob_gc1 ob = g1 \<Longrightarrow> ob_gc2 ob = g2 \<Longrightarrow> ob_gcverify ob = gv \<Longrightarrow>
           trace c' = trace c3 @ fst (shape_after b sizeLevel ob) \<and> x = snd (shape_after b sizeLevel ob)"
        by blast
      let ?ob = "\<lparr>ob_trap = tr, ob_check = v, ob_isnil = isn, ob_lower = lw, ob_verify = vr,
                ob_gc1 = g1, ob_gc2 = g2, ob_gcverify = gv\<rparr>"
      show ?thesis using L[of ?ob] B[of ?ob] A[of ?ob] N3 None t2
        by (intro exI[of _ ?ob]) (auto simp: run_shape_def Let_def b_def split: prod.splits)
    qed
  qed
qed

lemma run_has_shape:
  "\<exists>ob. run_events E optLevel sizeLevel t c
           = fst (run_shape (PanicStrategy c = ''trap'') (VerifyIR c) optLevel sizeLevel t ob)
       \<and> run_exit E optLevel sizeLevel t c
           = snd (run_shape (PanicStrategy c = ''trap'') (VerifyIR c) optLevel sizeLevel t ob)"
proof -
  obtain x c' where o: "Optimize E optLevel sizeLevel t c = (x, c')"
    by (cases "Optimize E optLevel sizeLevel t c")
  from Optimize_shape[OF o] show ?thesis
    by (auto simp: run_events_def run_exit_def o)
qed

lemmas shape_defs = run_shape_def shape_leading_def shape_branch_def shape_lowering_def
  shape_after_def shape_gc_def

text \<open>
  Claim C1. In every run with \<open>optLevel > 0\<close> that no panic ends, the phases of lines 41
  to 86 are logged in exactly this order: the bundle of the four module passes (global
  optimizer, constant propagation, aggressive DCE, function attributes); \<open>OptimizeMaps\<close>,
  \<open>OptimizeStringToBytes\<close>, \<open>OptimizeAllocs\<close>; \<open>LowerInterfaces\<close>, \<open>LowerFuncValues\<close>; the
  same bundle again; \<open>OptimizeAllocs\<close>, \<open>OptimizeStringToBytes\<close>; the \<open>runtime.isnil\<close>
  rewrite; \<open>LowerGoroutines\<close>. None of these kinds of phase is logged before or after
  that block, so \<open>LowerGoroutines\<close> is the last lowering transform of the run.
\<close>

theorem optimize_order_positive_level:
  assumes "0 < optLevel"
    and "\<forall>f. run_exit E optLevel sizeLevel t c \<noteq> Panics f"
  shows "\<exists>pre r post.
           run_events E optLevel sizeLevel t c =
             pre @ [EvRun [GlobalOptimizerPass, ConstantPropagationPass, AggressiveDCEPass, FunctionAttrsPass],
                    EvOptimizeMaps, EvOptimizeStringToBytes, EvOptimizeAllocs,
                    EvLowerInterfaces, EvLowerFuncValues,
                    EvRun [GlobalOptimizerPass, ConstantPropagationPass, AggressiveDCEPass, FunctionAttrsPass],
                    EvOptimizeAllocs, EvOptimizeStringToBytes,
                    EvLowerIsnil,
                    EvLowerGoroutines r] @ post
         \<and> (\<forall>e \<in> set pre \<union> set post. \<not> is_level_step e)"
proof -
  obtain ob where
    ev: "run_events E optLevel sizeLevel t c
           = fst (run_shape (PanicStrategy c = ''trap'') (VerifyIR c) optLevel sizeLevel t ob)"
    and ex: "run_exit E optLevel sizeLevel t c
           = snd (run_shape (PanicStrategy c = ''trap'') (VerifyIR c) optLevel sizeLevel t ob)"
    using run_has_shape by blast
  define b where "b = configure optLevel sizeLevel t"
  obtain l1 r1 where L: "shape_leading (PanicStrategy c = ''trap'') (VerifyIR c) ob = (l1, r1)"
    by (cases "shape_leading (PanicStrategy c = ''trap'') (VerifyIR c) ob")
  have r1: "r1 = None" using assms(2) ex L
    by (cases r1) (auto simp: run_shape_def Let_def)
  have l1: "\<forall>e\<in>set l1. \<not> is_level_step e"
    using L by (auto simp: shape_leading_def is_level_step_def is_bundle_def split: if_splits)
  have isn: "ob_isnil ob = None"
    using assms ex L r1 by (cases "ob_isnil ob") (auto simp: run_shape_def shape_branch_def Let_def)
  let ?pre = "l1 @ [EvRunFunc [PopulatedFunc b]]"
  let ?post = "case ob_lower ob of Some e \<Rightarrow> [] | None \<Rightarrow> fst (shape_after b sizeLevel ob)"
  have post: "\<forall>e\<in>set ?post. \<not> is_level_step e"
    by (auto simp: shape_after_def shape_gc_def is_level_step_def is_bundle_def
             split: option.splits if_splits)
  have "run_events E optLevel sizeLevel t c =
          ?pre @ [EvRun [GlobalOptimizerPass, ConstantPropagationPass, AggressiveDCEPass, FunctionAttrsPass],
                    EvOptimizeMaps, EvOptimizeStringToBytes, EvOptimizeAllocs,
                    EvLowerInterfaces, EvLowerFuncValues,
                    EvRun [GlobalOptimizerPass, ConstantPropagationPass, AggressiveDCEPass, FunctionAttrsPass],
                    EvOptimizeAllocs, EvOptimizeStringToBytes,
                    EvLowerIsnil,
                    EvLowerGoroutines (ob_lower ob)] @ ?post"
    using ev L r1 isn assms(1)
    by (auto simp: run_shape_def shape_branch_def shape_lowering_def Let_def b_def goPasses_def
             split: option.splits)
  moreover have "\<forall>e \<in> set ?pre \<union> set ?post. \<not> is_level_step e"
    using l1 post by (auto simp: is_level_step_def is_bundle_def)
  ultimately show ?thesis by blast
qed

lemmas eval_defs = Optimize_def configure_def NewPassManagerBuilder_def UseInlinerWithThreshold_def
  leading_def replacePanicsWithTrap_def trapName_def trapUse_def CreateCall_def build_def
  SetInsertPointBefore_def IsACallInst_def CalledValue_def lowerIsnil_def lowerIsnilUse_def
  CreateICmp_def ConstPointerNull_def IsABitCastInst_def Operand0_of_def inst_of_def Operand0_def
  ReplaceAllUsesWith_def EraseFromParentAsInstruction_def map_blocks_def getUses_def
  NamedFunction_def find_inst_def all_insts_def fresh_id_def inst_handles_def
  runFuncPasses_def transform_def emit_def lowerGoroutines_def optimizeBranch_def lowerBranch_def
  verify_def addOptsize_def AddFunctionAttr_def undoExport_def undoExports_def SetLinkage_def
  addGlobalsBitmap_step_def makeGCStackSlots_step_def gcPasses_def afterLowering_def goPasses_def
  run_exit_def run_events_def Let_def

text \<open>
  Claim C2. In a run with \<open>optLevel = 0\<close> (the \<open>else\<close> branch, taken for every level that
  is not positive) no bundle of module passes, no optimizer of the \<open>transform\<close> package
  and no \<open>runtime.isnil\<close> rewrite is logged; and unless a panic ends the run,
  \<open>LowerInterfaces\<close>, \<open>LowerFuncValues\<close> and \<open>LowerGoroutines\<close> are logged, in this order,
  whatever the other arguments and flags are.
\<close>

theorem lowering_only_at_level_zero:
  assumes "optLevel \<le> 0"
  shows "(\<forall>e \<in> set (run_events E optLevel sizeLevel t c).
            \<not> is_bundle e \<and> \<not> is_domain_opt e \<and> e \<noteq> EvLowerIsnil)
       \<and> ((\<forall>f. run_exit E optLevel sizeLevel t c \<noteq> Panics f) \<longrightarrow>
            (\<exists>pre r post.
               run_events E optLevel sizeLevel t c =
                 pre @ [EvLowerInterfaces, EvLowerFuncValues, EvLowerGoroutines r] @ post
             \<and> (\<forall>e \<in> set pre \<union> set post. \<not> is_level_step e)))"
proof -
  obtain ob where
    ev: "run_events E optLevel sizeLevel t c
           = fst (run_shape (PanicStrategy c = ''trap'') (VerifyIR c) optLevel sizeLevel t ob)"
    and ex: "run_exit E optLevel sizeLevel t c
           = snd (run_shape (PanicStrategy c = ''trap'') (VerifyIR c) optLevel sizeLevel t ob)"
    using run_has_shape by blast
  define b where "b = configure optLevel sizeLevel t"
  obtain l1 r1 where L: "shape_leading (PanicStrategy c = ''trap'') (VerifyIR c) ob = (l1, r1)"
    by (cases "shape_leading (PanicStrategy c = ''trap'') (VerifyIR c) ob")
  have l1: "\<forall>e\<in>set l1. \<not> is_level_step e"
    using L by (auto simp: shape_leading_def is_level_step_def is_bundle_def split: if_splits)
  let ?pre = "l1 @ [EvRunFunc [PopulatedFunc b]]"
  let ?post = "case ob_lower ob of Some e \<Rightarrow> [] | None \<Rightarrow> fst (shape_after b sizeLevel ob)"
  have post: "\<forall>e\<in>set ?post. \<not> is_level_step e"
    by (auto simp: shape_after_def shape_gc_def is_level_step_def is_bundle_def
             split: option.splits if_splits)
  have full: "r1 = None \<Longrightarrow> run_events E optLevel sizeLevel t c =
          ?pre @ [EvLowerInterfaces, EvLowerFuncValues, EvLowerGoroutines (ob_lower ob)] @ ?post"
    using ev L assms
    by (auto simp: run_shape_def shape_branch_def shape_lowering_def Let_def b_def
             split: option.splits)
  have cut: "r1 \<noteq> None \<Longrightarrow> run_events E optLevel sizeLevel t c = l1"
    using ev L by (auto simp: run_shape_def Let_def)
  have A: "\<forall>e \<in> set (run_events E optLevel sizeLevel t c).
            \<not> is_bundle e \<and> \<not> is_domain_opt e \<and> e \<noteq> EvLowerIsnil"
  proof (cases r1)
    case None
    show ?thesis unfolding full[OF None] using l1 post
      by (auto simp: is_level_step_def is_bundle_def)
  next
    case (Some f)
    then show ?thesis using cut l1 by (auto simp: is_level_step_def)
  qed
  have B: "(\<forall>f. run_exit E optLevel sizeLevel t c \<noteq> Panics f) \<longrightarrow>
            (\<exists>pre r post.
               run_events E optLevel sizeLevel t c =
                 pre @ [EvLowerInterfaces, EvLowerFuncValues, EvLowerGoroutines r] @ post
             \<and> (\<forall>e \<in> set pre \<union> set post. \<not> is_level_step e))"
  proof
    assume np: "\<forall>f. run_exit E optLevel sizeLevel t c \<noteq> Panics f"
    have r1: "r1 = None" using np ex L by (cases r1) (auto simp: run_shape_def Let_def)
    have "\<forall>e \<in> set ?pre \<union> set ?post. \<not> is_level_step e"
      using l1 post by (auto simp: is_level_step_def is_bundle_def)
    with full[OF r1] show "\<exists>pre r post.
               run_events E optLevel sizeLevel t c =
                 pre @ [EvLowerInterfaces, EvLowerFuncValues, EvLowerGoroutines r] @ post
             \<and> (\<forall>e \<in> set pre \<union> set post. \<not> is_level_step e)" by blast
  qed
  from A B show ?thesis by blast
qed

text \<open>
  Claim C9. In every run with \<open>optLevel > 0\<close> that no panic ends, the first run of the
  optimizers of the \<open>transform\<close> package is \<open>OptimizeMaps\<close>, \<open>OptimizeStringToBytes\<close>,
  \<open>OptimizeAllocs\<close>; the second run, right after the second bundle of module passes, is
  \<open>OptimizeAllocs\<close> then \<open>OptimizeStringToBytes\<close>; and no other such optimizer is logged,
  so \<open>OptimizeMaps\<close> runs once.
\<close>

theorem second_domain_run_omits_maps:
  assumes "0 < optLevel"
    and "\<forall>f. run_exit E optLevel sizeLevel t c \<noteq> Panics f"
  shows "\<exists>pre mid post.
           run_events E optLevel sizeLevel t c =
             pre @ [EvOptimizeMaps, EvOptimizeStringToBytes, EvOptimizeAllocs] @ mid
                 @ [EvRun [GlobalOptimizerPass, ConstantPropagationPass, AggressiveDCEPass, FunctionAttrsPass],
                    EvOptimizeAllocs, EvOptimizeStringToBytes] @ post
         \<and> (\<forall>e \<in> set pre \<union> set mid \<union> set post. \<not> is_domain_opt e)
         \<and> (\<forall>e \<in> set mid \<union> set post. \<not> is_bundle e)"
proof -
  obtain ob where
    ev: "run_events E optLevel sizeLevel t c
           = fst (run_shape (PanicStrategy c = ''trap'') (VerifyIR c) optLevel sizeLevel t ob)"
    and ex: "run_exit E optLevel sizeLevel t c
           = snd (run_shape (PanicStrategy c = ''trap'') (VerifyIR c) optLevel sizeLevel t ob)"
    using run_has_shape by blast
  define b where "b = configure optLevel sizeLevel t"
  obtain l1 r1 where L: "shape_leading (PanicStrategy c = ''trap'') (VerifyIR c) ob = (l1, r1)"
    by (cases "shape_leading (PanicStrategy c = ''trap'') (VerifyIR c) ob")
  have r1: "r1 = None" using assms(2) ex L
    by (cases r1) (auto simp: run_shape_def Let_def)
  have l1: "\<forall>e\<in>set l1. \<not> is_domain_opt e"
    using L by (auto simp: shape_leading_def split: if_splits)
  have isn: "ob_isnil ob = None"
    using assms ex L r1 by (cases "ob_isnil ob") (auto simp: run_shape_def shape_branch_def Let_def)
  let ?pre = "l1 @ [EvRunFunc [PopulatedFunc b],
                    EvRun [GlobalOptimizerPass, ConstantPropagationPass, AggressiveDCEPass, FunctionAttrsPass]]"
  let ?mid = "[EvLowerInterfaces, EvLowerFuncValues]"
  let ?post = "[EvLowerIsnil, EvLowerGoroutines (ob_lower ob)]
       @ (case ob_lower ob of Some e \<Rightarrow> [] | None \<Rightarrow> fst (shape_after b sizeLevel ob))"
  have post: "\<forall>e\<in>set ?post. \<not> is_domain_opt e \<and> \<not> is_bundle e"
    by (auto simp: shape_after_def shape_gc_def is_bundle_def split: option.splits if_splits)
  have "run_events E optLevel sizeLevel t c =
          ?pre @ [EvOptimizeMaps, EvOptimizeStringToBytes, EvOptimizeAllocs] @ ?mid
                 @ [EvRun [GlobalOptimizerPass, ConstantPropagationPass, AggressiveDCEPass, FunctionAttrsPass],
                    EvOptimizeAllocs, EvOptimizeStringToBytes] @ ?post"
    using ev L r1 isn assms(1)
    by (auto simp: run_shape_def shape_branch_def shape_lowering_def Let_def b_def goPasses_def
             split: option.splits)
  moreover have "\<forall>e \<in> set ?pre \<union> set ?mid \<union> set ?post. \<not> is_domain_opt e"
    using l1 post by auto
  moreover have "\<forall>e \<in> set ?mid \<union> set ?post. \<not> is_bundle e"
    using post by (auto simp: is_bundle_def)
  ultimately show ?thesis by blast
qed

lemma configure_Inliner:
  "Inliner (configure optLevel sizeLevel t) = (if t = 0 then NoInliner else InlinerWithThreshold t)"
  by (simp add: configure_def NewPassManagerBuilder_def UseInlinerWithThreshold_def Let_def)

text \<open>
  Claim C7. Every pass manager that a run populates from the builder and runs (the
  function passes of lines 34 to 38 and 121 to 123, the module passes of line 130) is
  populated from a builder that has no inliner when \<open>inlinerThreshold\<close> is 0, whatever
  \<open>optLevel\<close> is, and that has the inliner with exactly that threshold otherwise.
\<close>

theorem inliner_only_with_nonzero_threshold:
  assumes "EvRunFunc ps \<in> set (run_events E optLevel sizeLevel t c)
         \<or> EvRun ps \<in> set (run_events E optLevel sizeLevel t c)"
    and "PopulatedFunc b \<in> set ps \<or> Populated b \<in> set ps"
  shows "Inliner b = (if t = 0 then NoInliner else InlinerWithThreshold t)"
proof -
  obtain ob where
    ev: "run_events E optLevel sizeLevel t c
           = fst (run_shape (PanicStrategy c = ''trap'') (VerifyIR c) optLevel sizeLevel t ob)"
    using run_has_shape by blast
  have "b = configure optLevel sizeLevel t"
    using assms unfolding ev
    by (auto simp: shape_defs Let_def goPasses_def split: prod.splits option.splits if_splits)
  then show ?thesis by (simp add: configure_Inliner)
qed

text \<open>
  Claim C6. In every run that reaches line 130 (the module passes), \<open>addGlobalsBitmap\<close>
  and then \<open>makeGCStackSlots\<close> are both logged, each with the flag it reported; \<open>Verify\<close>
  is logged after them exactly when one of the two flags is true; nothing follows; and
  the run returns the error \<open>GC pass caused a verification failure\<close> when that \<open>Verify\<close>
  ran and failed, and nil otherwise. The message differs from the one of line 97.
\<close>

theorem gc_steps_and_final_gate:
  assumes "EvRun [Populated (configure optLevel sizeLevel t)] \<in> set (run_events E optLevel sizeLevel t c)"
  shows "\<exists>pre g1 g2 gv.
           run_events E optLevel sizeLevel t c =
             pre @ [EvAddGlobalsBitmap g1, EvMakeGCStackSlots g2] @ (if g1 \<or> g2 then [EvVerify gv] else [])
         \<and> (\<forall>e \<in> set pre. \<not> is_gc_step e)
         \<and> run_exit E optLevel sizeLevel t c =
             (if (g1 \<or> g2) \<and> gv \<noteq> None
              then Returns (Some (Error ''GC pass caused a verification failure''))
              else Returns None)
         \<and> Error ''GC pass caused a verification failure''
             \<noteq> Error ''optimizations caused a verification failure''"
proof -
  obtain ob where
    ev: "run_events E optLevel sizeLevel t c
           = fst (run_shape (PanicStrategy c = ''trap'') (VerifyIR c) optLevel sizeLevel t ob)"
    and ex: "run_exit E optLevel sizeLevel t c
           = snd (run_shape (PanicStrategy c = ''trap'') (VerifyIR c) optLevel sizeLevel t ob)"
    using run_has_shape by blast
  define b where "b = configure optLevel sizeLevel t"
  obtain l1 r1 where L: "shape_leading (PanicStrategy c = ''trap'') (VerifyIR c) ob = (l1, r1)"
    by (cases "shape_leading (PanicStrategy c = ''trap'') (VerifyIR c) ob")
  obtain l2 r2 where B: "shape_branch optLevel ob = (l2, r2)"
    by (cases "shape_branch optLevel ob")
  have l1: "\<forall>e\<in>set l1. \<not> is_gc_step e \<and> e \<noteq> EvRun [Populated b]"
    using L by (auto simp: shape_leading_def split: if_splits)
  have l2: "\<forall>e\<in>set l2. \<not> is_gc_step e \<and> e \<noteq> EvRun [Populated b]"
    using B by (auto simp: shape_branch_def shape_lowering_def Let_def goPasses_def
                     split: if_splits option.splits)
  have r1: "r1 = None"
  proof (cases r1)
    case (Some f)
    then have "run_events E optLevel sizeLevel t c = l1"
      using ev L by (simp add: run_shape_def Let_def)
    with assms l1 show ?thesis by (auto simp: b_def)
  qed simp
  have r2: "r2 = None"
  proof (cases r2)
    case (Some x)
    then have "run_events E optLevel sizeLevel t c = l1 @ [EvRunFunc [PopulatedFunc b]] @ l2"
      using ev L B r1 by (simp add: run_shape_def Let_def b_def)
    with assms l1 l2 show ?thesis by (auto simp: b_def)
  qed simp
  have vr: "ob_verify ob = None"
  proof (cases "ob_verify ob")
    case (Some e)
    then have "run_events E optLevel sizeLevel t c = l1 @ [EvRunFunc [PopulatedFunc b]] @ l2 @ [EvVerify (Some e)]"
      using ev L B r1 r2 by (simp add: run_shape_def shape_after_def Let_def b_def)
    with assms l1 l2 show ?thesis by (auto simp: b_def)
  qed simp
  let ?pre = "l1 @ [EvRunFunc [PopulatedFunc b]] @ l2 @ [EvVerify None]
                @ (if sizeLevel \<ge> 2 then [EvOptsize] else [])
                @ [EvUndoExports, EvRunFunc [PopulatedFunc b], EvRun [Populated b]]"
  have "run_events E optLevel sizeLevel t c =
          ?pre @ [EvAddGlobalsBitmap (ob_gc1 ob), EvMakeGCStackSlots (ob_gc2 ob)]
               @ (if ob_gc1 ob \<or> ob_gc2 ob then [EvVerify (ob_gcverify ob)] else [])"
    using ev L B r1 r2 vr by (simp add: run_shape_def shape_after_def shape_gc_def Let_def b_def)
  moreover have "\<forall>e \<in> set ?pre. \<not> is_gc_step e" using l1 l2 by auto
  moreover have "run_exit E optLevel sizeLevel t c =
             (if (ob_gc1 ob \<or> ob_gc2 ob) \<and> ob_gcverify ob \<noteq> None
              then Returns (Some (Error ''GC pass caused a verification failure''))
              else Returns None)"
    using ex L B r1 r2 vr by (simp add: run_shape_def shape_after_def shape_gc_def Let_def b_def)
  ultimately show ?thesis by (intro exI[of _ ?pre] exI[of _ "ob_gc1 ob"] exI[of _ "ob_gc2 ob"] exI[of _ "ob_gcverify ob"]) simp
qed

text \<open>
  Claim C3, amended. \<open>Optimize\<close> returns an error if and only if \<open>LowerGoroutines\<close> returned
  one or a call of \<open>Verify\<close> (line 96, or line 135 after a GC step that reported a change)
  returned one. The failing phase is then the last phase of the run, an error of
  \<open>LowerGoroutines\<close> is returned as it is, and a failure of \<open>Verify\<close> is returned as one of
  the two messages of lines 97 and 136. The verdict of \<open>checkModule\<close> is not among the
  causes: see the counterexample.
\<close>

theorem optimize_returns_failure_iff:
  "((\<exists>e. run_exit E optLevel sizeLevel t c = Returns (Some e)) \<longleftrightarrow>
      (\<exists>e. EvLowerGoroutines (Some e) \<in> set (run_events E optLevel sizeLevel t c)
          \<or> EvVerify (Some e) \<in> set (run_events E optLevel sizeLevel t c)))
   \<and> (\<forall>e. EvLowerGoroutines (Some e) \<in> set (run_events E optLevel sizeLevel t c) \<longrightarrow>
          run_exit E optLevel sizeLevel t c = Returns (Some e)
        \<and> (\<exists>pre. run_events E optLevel sizeLevel t c = pre @ [EvLowerGoroutines (Some e)]))
   \<and> (\<forall>e. EvVerify (Some e) \<in> set (run_events E optLevel sizeLevel t c) \<longrightarrow>
          (run_exit E optLevel sizeLevel t c = Returns (Some (Error ''optimizations caused a verification failure''))
           \<or> run_exit E optLevel sizeLevel t c = Returns (Some (Error ''GC pass caused a verification failure'')))
        \<and> (\<exists>pre. run_events E optLevel sizeLevel t c = pre @ [EvVerify (Some e)]))"
proof -
  obtain ob where
    ev: "run_events E optLevel sizeLevel t c
           = fst (run_shape (PanicStrategy c = ''trap'') (VerifyIR c) optLevel sizeLevel t ob)"
    and ex: "run_exit E optLevel sizeLevel t c
           = snd (run_shape (PanicStrategy c = ''trap'') (VerifyIR c) optLevel sizeLevel t ob)"
    using run_has_shape by blast
  show ?thesis unfolding ev ex
    by (cases "ob_trap ob"; cases "ob_check ob"; cases "ob_isnil ob"; cases "ob_lower ob";
        cases "ob_verify ob"; cases "ob_gcverify ob")
       (simp_all add: shape_defs Let_def goPasses_def)
qed

lemma undoExport_eq:
  "undoExport name m = map (\<lambda>f. if fn_name f = name then f\<lparr>fn_linkage := InternalLinkage\<rparr> else f) m"
proof (cases "name \<in> set (map fn_name m)")
  case True
  then show ?thesis by (simp add: undoExport_def NamedFunction_def SetLinkage_def)
next
  case False
  then have "map (\<lambda>f. if fn_name f = name then f\<lparr>fn_linkage := InternalLinkage\<rparr> else f) m = m"
    by (induction m) auto
  with False show ?thesis by (simp add: undoExport_def NamedFunction_def)
qed

lemma undoExports_eq:
  "undoExports names m =
     map (\<lambda>f. if fn_name f \<in> set names then f\<lparr>fn_linkage := InternalLinkage\<rparr> else f) m"
proof (induction names arbitrary: m)
  case Nil
  then show ?case by (simp add: undoExports_def)
next
  case (Cons n ns)
  have "undoExports (n # ns) m = undoExports ns (undoExport n m)"
    by (simp add: undoExports_def)
  also have "\<dots> = map (\<lambda>f. if fn_name f \<in> set ns then f\<lparr>fn_linkage := InternalLinkage\<rparr> else f)
                      (map (\<lambda>f. if fn_name f = n then f\<lparr>fn_linkage := InternalLinkage\<rparr> else f) m)"
    by (simp add: Cons.IH undoExport_eq)
  also have "\<dots> = map (\<lambda>f. if fn_name f \<in> set (n # ns) then f\<lparr>fn_linkage := InternalLinkage\<rparr> else f) m"
    by (induction m) auto
  finally show ?case .
qed

text \<open>
  Claim C8. The loop of lines 111 to 117 sets the linkage of every function whose name
  is in the list to internal and changes nothing else: the functions not named, and the
  name, attributes and blocks of the named ones, stay as they are; a name with no
  function is skipped; with no listed function in the module the module is unchanged.
  In a run of \<open>Optimize\<close> the loop comes after \<open>LowerInterfaces\<close>, \<open>LowerFuncValues\<close> and a
  \<open>LowerGoroutines\<close> that returned nil, and no lowering transform follows it.
\<close>

theorem undoExports_resets_listed_linkage:
  "undoExports names m =
     map (\<lambda>f. if fn_name f \<in> set names then f\<lparr>fn_linkage := InternalLinkage\<rparr> else f) m
   \<and> (set names \<inter> set (map fn_name m) = {} \<longrightarrow> undoExports names m = m)
   \<and> (EvUndoExports \<in> set (run_events E optLevel sizeLevel t c) \<longrightarrow>
        (\<exists>pre post. run_events E optLevel sizeLevel t c = pre @ EvUndoExports # post
            \<and> EvLowerInterfaces \<in> set pre \<and> EvLowerFuncValues \<in> set pre
            \<and> EvLowerGoroutines None \<in> set pre
            \<and> (\<forall>e \<in> set post. \<not> is_lowering e)))"
proof -
  have A: "undoExports names m =
     map (\<lambda>f. if fn_name f \<in> set names then f\<lparr>fn_linkage := InternalLinkage\<rparr> else f) m"
    by (rule undoExports_eq)
  have B: "set names \<inter> set (map fn_name m) = {} \<longrightarrow> undoExports names m = m"
  proof
    assume d: "set names \<inter> set (map fn_name m) = {}"
    then have "\<forall>f \<in> set m. fn_name f \<notin> set names" by auto
    then have "map (\<lambda>f. if fn_name f \<in> set names then f\<lparr>fn_linkage := InternalLinkage\<rparr> else f) m = m"
      by (induction m) auto
    then show "undoExports names m = m" by (simp add: A)
  qed
  obtain ob where
    ev: "run_events E optLevel sizeLevel t c
           = fst (run_shape (PanicStrategy c = ''trap'') (VerifyIR c) optLevel sizeLevel t ob)"
    using run_has_shape by blast
  define b where "b = configure optLevel sizeLevel t"
  obtain l1 r1 where L: "shape_leading (PanicStrategy c = ''trap'') (VerifyIR c) ob = (l1, r1)"
    by (cases "shape_leading (PanicStrategy c = ''trap'') (VerifyIR c) ob")
  obtain l2 r2 where Br: "shape_branch optLevel ob = (l2, r2)"
    by (cases "shape_branch optLevel ob")
  have l1: "EvUndoExports \<notin> set l1"
    using L by (auto simp: shape_leading_def split: if_splits)
  have l2: "EvUndoExports \<notin> set l2"
    using Br by (auto simp: shape_branch_def shape_lowering_def Let_def split: if_splits option.splits)
  have l2': "r2 = None \<Longrightarrow> EvLowerInterfaces \<in> set l2 \<and> EvLowerFuncValues \<in> set l2 \<and> EvLowerGoroutines None \<in> set l2"
    using Br by (auto simp: shape_branch_def shape_lowering_def Let_def split: if_splits option.splits)
  have C: "EvUndoExports \<in> set (run_events E optLevel sizeLevel t c) \<longrightarrow>
        (\<exists>pre post. run_events E optLevel sizeLevel t c = pre @ EvUndoExports # post
            \<and> EvLowerInterfaces \<in> set pre \<and> EvLowerFuncValues \<in> set pre
            \<and> EvLowerGoroutines None \<in> set pre
            \<and> (\<forall>e \<in> set post. \<not> is_lowering e))"
  proof
    assume u: "EvUndoExports \<in> set (run_events E optLevel sizeLevel t c)"
    have r1: "r1 = None"
    proof (cases r1)
      case (Some f)
      then have "run_events E optLevel sizeLevel t c = l1"
        using ev L by (simp add: run_shape_def Let_def)
      with u l1 show ?thesis by simp
    qed simp
    have r2: "r2 = None"
    proof (cases r2)
      case (Some x)
      then have "run_events E optLevel sizeLevel t c = l1 @ [EvRunFunc [PopulatedFunc b]] @ l2"
        using ev L Br r1 by (simp add: run_shape_def Let_def b_def)
      with u l1 l2 show ?thesis by simp
    qed simp
    have vr: "ob_verify ob = None"
    proof (cases "ob_verify ob")
      case (Some e)
      then have "run_events E optLevel sizeLevel t c = l1 @ [EvRunFunc [PopulatedFunc b]] @ l2 @ [EvVerify (Some e)]"
        using ev L Br r1 r2 by (simp add: run_shape_def shape_after_def Let_def b_def)
      with u l1 l2 show ?thesis by simp
    qed simp
    let ?pre = "l1 @ [EvRunFunc [PopulatedFunc b]] @ l2 @ [EvVerify None]
                  @ (if sizeLevel \<ge> 2 then [EvOptsize] else [])"
    let ?post = "[EvRunFunc [PopulatedFunc b], EvRun [Populated b]] @ fst (shape_gc ob)"
    have "run_events E optLevel sizeLevel t c = ?pre @ EvUndoExports # ?post"
      using ev L Br r1 r2 vr by (simp add: run_shape_def shape_after_def Let_def b_def)
    moreover have "EvLowerInterfaces \<in> set ?pre \<and> EvLowerFuncValues \<in> set ?pre
        \<and> EvLowerGoroutines None \<in> set ?pre" using l2'[OF r2] by simp
    moreover have "\<forall>e \<in> set ?post. \<not> is_lowering e"
      by (auto simp: shape_gc_def)
    ultimately show "\<exists>pre post. run_events E optLevel sizeLevel t c = pre @ EvUndoExports # post
            \<and> EvLowerInterfaces \<in> set pre \<and> EvLowerFuncValues \<in> set pre
            \<and> EvLowerGoroutines None \<in> set pre
            \<and> (\<forall>e \<in> set post. \<not> is_lowering e)" by blast
  qed
  from A B C show ?thesis by blast
qed

lemma trapUse_names: "trapUse trap fn u c = (r, c') \<Longrightarrow> same_names c0 c \<Longrightarrow> same_names c0 c'"
  by (auto simp: trapUse_def CreateCall_def build_def SetInsertPointBefore_def same_names_def Let_def
           split: option.splits if_splits sum.splits)

lemma trapName_names:
  assumes "trapName trap n c = (r, c')"
  shows "map fn_name (c_mod c') = map fn_name (c_mod c)"
proof (cases "NamedFunction (c_mod c) n = VNil")
  case True
  then show ?thesis using assms by (simp add: trapName_def)
next
  case False
  then have "forEach (trapUse trap (NamedFunction (c_mod c) n))
               (getUses (c_mod c) (NamedFunction (c_mod c) n)) c = (r, c')"
    using assms by (simp add: trapName_def Let_def)
  then have "same_names c c'"
    by (rule forEach_pres[where P="same_names c", rotated 1])
       (simp add: same_names_def, erule trapUse_names)
  then show ?thesis by (simp add: same_names_def)
qed

text \<open>
  Claim C10. When one of \<open>runtime._panic\<close> and \<open>runtime.runtimePanic\<close> is not in the
  module, \<open>replacePanicsWithTrap\<close> does for it nothing: the iteration for that name
  leaves the compiler state as it is and raises no fault, so the whole rewrite is what
  the iteration for the other name does. When both are absent the rewrite changes
  nothing and ends without a fault.
\<close>

theorem absent_panic_function_is_skipped:
  "(NamedFunction (c_mod c) name = VNil \<longrightarrow> trapName trap name c = (None, c))
   \<and> (NamedFunction (c_mod c) ''runtime._panic'' = VNil \<longrightarrow>
        replacePanicsWithTrap c
          = trapName (NamedFunction (c_mod c) ''llvm.trap'') ''runtime.runtimePanic'' c)
   \<and> (NamedFunction (c_mod c) ''runtime.runtimePanic'' = VNil \<longrightarrow>
        replacePanicsWithTrap c
          = trapName (NamedFunction (c_mod c) ''llvm.trap'') ''runtime._panic'' c)
   \<and> (NamedFunction (c_mod c) ''runtime._panic'' = VNil
        \<and> NamedFunction (c_mod c) ''runtime.runtimePanic'' = VNil \<longrightarrow>
        replacePanicsWithTrap c = (None, c))"
proof -
  let ?trap = "NamedFunction (c_mod c) ''llvm.trap''"
  have A: "\<And>c name trap. NamedFunction (c_mod c) name = VNil \<Longrightarrow> trapName trap name c = (None, c)"
    by (simp add: trapName_def)
  have B: "NamedFunction (c_mod c) ''runtime._panic'' = VNil \<Longrightarrow>
        replacePanicsWithTrap c = trapName ?trap ''runtime.runtimePanic'' c"
    by (auto simp: replacePanicsWithTrap_def A Let_def split: prod.splits option.splits)
  have C: "replacePanicsWithTrap c = trapName ?trap ''runtime._panic'' c"
    if n: "NamedFunction (c_mod c) ''runtime.runtimePanic'' = VNil"
  proof -
    obtain r1 c1 where t: "trapName ?trap ''runtime._panic'' c = (r1, c1)"
      by (cases "trapName ?trap ''runtime._panic'' c")
    have "NamedFunction (c_mod c1) ''runtime.runtimePanic'' = VNil"
      using n trapName_names[OF t] by (simp add: NamedFunction_def)
    then have "trapName ?trap ''runtime.runtimePanic'' c1 = (None, c1)" by (rule A)
    then show ?thesis using t
      by (cases r1) (simp_all add: replacePanicsWithTrap_def Let_def)
  qed
  show ?thesis using A B C by simp
qed

lemmas env_defs = quiet_def rejecting_def aborting_def failing_lowering_def failing_gc_verify_def
  plain_def declared_def

lemma plain_exit_1: "run_exit quiet 1 0 0 plain = Returns None"
  by (simp add: eval_defs env_defs)

text \<open>
  The hypotheses of C1 hold for the run of \<open>quiet\<close> at level 1 on \<open>plain\<close>.
\<close>

theorem optimize_order_positive_level_witness:
  "(0::int) < 1 \<and> (\<forall>f. run_exit quiet 1 0 0 plain \<noteq> Panics f)
   \<and> (\<exists>pre r post.
           run_events quiet 1 0 0 plain =
             pre @ [EvRun [GlobalOptimizerPass, ConstantPropagationPass, AggressiveDCEPass, FunctionAttrsPass],
                    EvOptimizeMaps, EvOptimizeStringToBytes, EvOptimizeAllocs,
                    EvLowerInterfaces, EvLowerFuncValues,
                    EvRun [GlobalOptimizerPass, ConstantPropagationPass, AggressiveDCEPass, FunctionAttrsPass],
                    EvOptimizeAllocs, EvOptimizeStringToBytes,
                    EvLowerIsnil,
                    EvLowerGoroutines r] @ post
         \<and> (\<forall>e \<in> set pre \<union> set post. \<not> is_level_step e))"
proof -
  have h: "\<forall>f. run_exit quiet 1 0 0 plain \<noteq> Panics f" by (simp add: plain_exit_1)
  show ?thesis
    using optimize_order_positive_level[where optLevel=1 and E=quiet and sizeLevel=0 and t=0 and c=plain, OF _ h] h
    by simp
qed

lemma plain_exit_0: "run_exit quiet 0 2 0 plain = Returns None"
  by (simp add: eval_defs env_defs)

text \<open>
  The hypotheses of C2 hold for the run of \<open>quiet\<close> at level 0 on \<open>plain\<close>.
\<close>

theorem lowering_only_at_level_zero_witness:
  "(0::int) \<le> 0
   \<and> EvLowerIsnil \<notin> set (run_events quiet 0 2 0 plain)
   \<and> EvOptimizeMaps \<notin> set (run_events quiet 0 2 0 plain)
   \<and> (\<forall>f. run_exit quiet 0 2 0 plain \<noteq> Panics f)
   \<and> (\<exists>pre r post.
               run_events quiet 0 2 0 plain =
                 pre @ [EvLowerInterfaces, EvLowerFuncValues, EvLowerGoroutines r] @ post
             \<and> (\<forall>e \<in> set pre \<union> set post. \<not> is_level_step e))"
  using lowering_only_at_level_zero[where optLevel=0 and E=quiet and sizeLevel=2 and t=0 and c=plain]
  by (auto simp: plain_exit_0)

lemma plain_exit_2: "run_exit quiet 2 0 225 plain = Returns None"
  by (simp add: eval_defs env_defs)

text \<open>
  The hypotheses of C9 hold for the run of \<open>quiet\<close> at level 2 on \<open>plain\<close>.
\<close>

theorem second_domain_run_omits_maps_witness:
  "(0::int) < 2 \<and> (\<forall>f. run_exit quiet 2 0 225 plain \<noteq> Panics f)
   \<and> (\<exists>pre mid post.
           run_events quiet 2 0 225 plain =
             pre @ [EvOptimizeMaps, EvOptimizeStringToBytes, EvOptimizeAllocs] @ mid
                 @ [EvRun [GlobalOptimizerPass, ConstantPropagationPass, AggressiveDCEPass, FunctionAttrsPass],
                    EvOptimizeAllocs, EvOptimizeStringToBytes] @ post
         \<and> (\<forall>e \<in> set pre \<union> set mid \<union> set post. \<not> is_domain_opt e)
         \<and> (\<forall>e \<in> set mid \<union> set post. \<not> is_bundle e))"
  using second_domain_run_omits_maps[where optLevel=2 and E=quiet and sizeLevel=0 and t=225 and c=plain]
  by (simp add: plain_exit_2)

lemma plain_events_inl:
  "EvRun [Populated \<lparr>OptLevel = 2, SizeLevel = 0, Inliner = InlinerWithThreshold 225, CoroutinePasses = True\<rparr>]
     \<in> set (run_events quiet 2 0 225 plain)"
  by (simp add: eval_defs env_defs)

lemma plain_events_noinl:
  "EvRun [Populated \<lparr>OptLevel = 2, SizeLevel = 0, Inliner = NoInliner, CoroutinePasses = True\<rparr>]
     \<in> set (run_events quiet 2 0 0 plain)"
  by (simp add: eval_defs env_defs)

text \<open>
  C7 on two runs of \<open>quiet\<close> at level 2: with threshold 225 the module passes come from a
  builder with that inliner, with threshold 0 from a builder without one.
\<close>

theorem inliner_only_with_nonzero_threshold_witness:
  "EvRun [Populated \<lparr>OptLevel = 2, SizeLevel = 0, Inliner = InlinerWithThreshold 225, CoroutinePasses = True\<rparr>]
     \<in> set (run_events quiet 2 0 225 plain)
   \<and> Inliner \<lparr>OptLevel = 2, SizeLevel = 0, Inliner = InlinerWithThreshold 225, CoroutinePasses = True\<rparr>
       = InlinerWithThreshold 225
   \<and> EvRun [Populated \<lparr>OptLevel = 2, SizeLevel = 0, Inliner = NoInliner, CoroutinePasses = True\<rparr>]
     \<in> set (run_events quiet 2 0 0 plain)
   \<and> Inliner \<lparr>OptLevel = 2, SizeLevel = 0, Inliner = NoInliner, CoroutinePasses = True\<rparr> = NoInliner"
  using inliner_only_with_nonzero_threshold[where E=quiet and optLevel=2 and sizeLevel=0 and t=225 and c=plain
          and ps="[Populated \<lparr>OptLevel = 2, SizeLevel = 0, Inliner = InlinerWithThreshold 225, CoroutinePasses = True\<rparr>]"
          and b="\<lparr>OptLevel = 2, SizeLevel = 0, Inliner = InlinerWithThreshold 225, CoroutinePasses = True\<rparr>"]
        inliner_only_with_nonzero_threshold[where E=quiet and optLevel=2 and sizeLevel=0 and t=0 and c=plain
          and ps="[Populated \<lparr>OptLevel = 2, SizeLevel = 0, Inliner = NoInliner, CoroutinePasses = True\<rparr>]"
          and b="\<lparr>OptLevel = 2, SizeLevel = 0, Inliner = NoInliner, CoroutinePasses = True\<rparr>"]
        plain_events_inl plain_events_noinl
  by simp

lemma gc_fail_events:
  "run_events failing_gc_verify 1 0 0 plain =
     [EvCheckModule CheckPassed,
      EvRunFunc [PopulatedFunc (configure 1 0 0)],
      EvRun [GlobalOptimizerPass, ConstantPropagationPass, AggressiveDCEPass, FunctionAttrsPass],
      EvOptimizeMaps, EvOptimizeStringToBytes, EvOptimizeAllocs,
      EvLowerInterfaces, EvLowerFuncValues,
      EvRun [GlobalOptimizerPass, ConstantPropagationPass, AggressiveDCEPass, FunctionAttrsPass],
      EvOptimizeAllocs, EvOptimizeStringToBytes, EvLowerIsnil, EvLowerGoroutines None,
      EvVerify None, EvUndoExports, EvRunFunc [PopulatedFunc (configure 1 0 0)],
      EvRun [Populated (configure 1 0 0)],
      EvAddGlobalsBitmap True, EvMakeGCStackSlots True, EvVerify (Some (Error ''malformed''))]"
  by (simp add: eval_defs env_defs)

text \<open>
  The hypothesis of C6 holds for the run of \<open>failing_gc_verify\<close> on \<open>plain\<close>, where the first
  GC step reports a change and \<open>Verify\<close> rejects the changed module.
\<close>

theorem gc_steps_and_final_gate_witness:
  "EvRun [Populated (configure 1 0 0)] \<in> set (run_events failing_gc_verify 1 0 0 plain)
   \<and> run_exit failing_gc_verify 1 0 0 plain
       = Returns (Some (Error ''GC pass caused a verification failure''))"
proof -
  have h: "EvRun [Populated (configure 1 0 0)] \<in> set (run_events failing_gc_verify 1 0 0 plain)"
    by (simp add: gc_fail_events)
  from gc_steps_and_final_gate[OF h] obtain pre g1 g2 gv where
    e: "run_events failing_gc_verify 1 0 0 plain =
             pre @ [EvAddGlobalsBitmap g1, EvMakeGCStackSlots g2] @ (if g1 \<or> g2 then [EvVerify gv] else [])"
    and x: "run_exit failing_gc_verify 1 0 0 plain =
             (if (g1 \<or> g2) \<and> gv \<noteq> None
              then Returns (Some (Error ''GC pass caused a verification failure''))
              else Returns None)"
    by blast
  have "g1 \<or> g2" "gv \<noteq> None"
    using e unfolding gc_fail_events by (auto split: if_splits simp: append_eq_Cons_conv Cons_eq_append_conv)
  with x h show ?thesis by simp
qed

text \<open>
  Claim C3 as stated fails: with \<open>VerifyIR\<close> set and a \<open>checkModule\<close> that rejects the
  module, the run of \<open>rejecting\<close> on \<open>plain\<close> logs the rejection and returns nil; and when
  \<open>checkModule\<close> panics instead (\<open>aborting\<close>), the run ends with that panic, not with a
  returned error.
\<close>

theorem leading_gate_failure_counterexample:
  "EvCheckModule CheckRejected \<in> set (run_events rejecting 1 0 0 plain)
   \<and> run_exit rejecting 1 0 0 plain = Returns None
   \<and> run_exit aborting 1 0 0 plain = Panics (GoPanic ''module uses global context'')"
  by (simp add: eval_defs env_defs)

lemma failing_lowering_events:
  "run_events failing_lowering 0 0 0 plain =
     [EvCheckModule CheckPassed, EvRunFunc [PopulatedFunc (configure 0 0 0)],
      EvLowerInterfaces, EvLowerFuncValues, EvLowerGoroutines (Some (Error ''could not lower''))]"
  by (simp add: eval_defs env_defs)

text \<open>
  The amended C3 on the run of \<open>failing_lowering\<close> at level 0 on \<open>plain\<close>.
\<close>

theorem optimize_returns_failure_iff_witness:
  "EvLowerGoroutines (Some (Error ''could not lower'')) \<in> set (run_events failing_lowering 0 0 0 plain)
   \<and> run_exit failing_lowering 0 0 0 plain = Returns (Some (Error ''could not lower''))
   \<and> (\<exists>pre. run_events failing_lowering 0 0 0 plain = pre @ [EvLowerGoroutines (Some (Error ''could not lower''))])"
proof -
  have h: "EvLowerGoroutines (Some (Error ''could not lower'')) \<in> set (run_events failing_lowering 0 0 0 plain)"
    by (simp add: failing_lowering_events)
  show ?thesis
    using optimize_returns_failure_iff[where E=failing_lowering and optLevel=0 and sizeLevel=0 and t=0 and c=plain] h
    by blast
qed

lemma plain_events_undo: "EvUndoExports \<in> set (run_events quiet 1 2 0 plain)"
  by (simp add: eval_defs env_defs)

text \<open>
  C8 on the module of \<open>plain\<close>: of the two listed names only \<open>runtime.alloc\<close> is in the
  module, and its linkage becomes internal; with a list of absent names only, nothing
  changes.
\<close>

theorem undoExports_resets_listed_linkage_witness:
  "undoExports [''runtime.alloc'', ''runtime.free''] (c_mod plain) =
     [\<lparr>fn_name = ''runtime.alloc'', fn_linkage = InternalLinkage, fn_attrs = [], fn_blocks = []\<rparr>,
      \<lparr>fn_name = ''main'', fn_linkage = ExternalLinkage, fn_attrs = [], fn_blocks = []\<rparr>]
   \<and> set [''runtime.free''] \<inter> set (map fn_name (c_mod plain)) = {}
   \<and> undoExports [''runtime.free''] (c_mod plain) = c_mod plain
   \<and> EvUndoExports \<in> set (run_events quiet 1 2 0 plain)
   \<and> (\<exists>pre post. run_events quiet 1 2 0 plain = pre @ EvUndoExports # post
            \<and> EvLowerInterfaces \<in> set pre \<and> EvLowerFuncValues \<in> set pre
            \<and> EvLowerGoroutines None \<in> set pre
            \<and> (\<forall>e \<in> set post. \<not> is_lowering e))"
proof -
  have d: "set [''runtime.free''] \<inter> set (map fn_name (c_mod plain)) = {}"
    by (simp add: plain_def declared_def)
  have a: "undoExports [''runtime.alloc'', ''runtime.free''] (c_mod plain) =
     [\<lparr>fn_name = ''runtime.alloc'', fn_linkage = InternalLinkage, fn_attrs = [], fn_blocks = []\<rparr>,
      \<lparr>fn_name = ''main'', fn_linkage = ExternalLinkage, fn_attrs = [], fn_blocks = []\<rparr>]"
    using undoExports_resets_listed_linkage[where names="[''runtime.alloc'', ''runtime.free'']" and m="c_mod plain"
        and E=quiet and optLevel=1 and sizeLevel=2 and t=0 and c=plain]
    by (simp add: plain_def declared_def)
  show ?thesis
    using undoExports_resets_listed_linkage[where names="[''runtime.free'']" and m="c_mod plain"
        and E=quiet and optLevel=1 and sizeLevel=2 and t=0 and c=plain] d a plain_events_undo
    by blast
qed

text \<open>
  C10 on \<open>plain\<close>, whose module has neither function.
\<close>

theorem absent_panic_function_is_skipped_witness:
  "NamedFunction (c_mod plain) ''runtime._panic'' = VNil
   \<and> NamedFunction (c_mod plain) ''runtime.runtimePanic'' = VNil
   \<and> replacePanicsWithTrap plain = (None, plain)
   \<and> trapName VNil ''runtime._panic'' plain = (None, plain)"
proof -
  have a: "NamedFunction (c_mod plain) ''runtime._panic'' = VNil"
    and b: "NamedFunction (c_mod plain) ''runtime.runtimePanic'' = VNil"
    by (simp_all add: NamedFunction_def plain_def declared_def)
  show ?thesis
    using absent_panic_function_is_skipped[where c=plain and name="''runtime._panic''" and trap=VNil] a b
    by blast
qed

section \<open>The trap rewrite on modules that declare \<open>llvm.trap\<close>\<close>

lemma all_insts_blocks: "all_insts m = concat (blocks m)"
  by (simp add: all_insts_def blocks_def)

lemma blocks_map_blocks: "blocks (map_blocks f m) = map f (blocks m)"
  by (induction m) (simp_all add: blocks_def map_blocks_def)

lemma with_traps_Nil [simp]: "with_traps g [] = []"
  by (simp add: with_traps_def)

lemma with_traps_Cons [simp]:
  "with_traps g (x # xs) =
     (case g (inst_id x) of Some k \<Rightarrow> [trap_inst k, x] | None \<Rightarrow> [x]) @ with_traps g xs"
  by (simp add: with_traps_def)

lemma with_traps_append: "with_traps g (xs @ ys) = with_traps g xs @ with_traps g ys"
  by (simp add: with_traps_def)

lemma with_traps_concat: "concat (map (with_traps g) bs) = with_traps g (concat bs)"
  by (induction bs) (simp_all add: with_traps_append)

lemma all_insts_with_traps:
  "all_insts (map_blocks (with_traps g) m) = with_traps g (all_insts m)"
  by (simp add: all_insts_blocks blocks_map_blocks with_traps_concat)

lemma with_traps_empty: "with_traps Map.empty blk = blk"
  by (induction blk) simp_all

lemma map_blocks_id: "(\<And>b. f b = b) \<Longrightarrow> map_blocks f m = m"
proof -
  assume "\<And>b. f b = b"
  then have "f = (\<lambda>b. b)" by (intro ext)
  then show ?thesis by (simp add: map_blocks_def)
qed

lemma map_blocks_comp: "map_blocks f (map_blocks h m) = map_blocks (f \<circ> h) m"
  by (simp add: map_blocks_def comp_def)

lemma map_blocks_cong:
  "(\<And>b. b \<in> set (blocks m) \<Longrightarrow> f b = h b) \<Longrightarrow> map_blocks f m = map_blocks h m"
  by (induction m) (auto simp: map_blocks_def blocks_def)

lemma fresh_id_gt: "h \<in> set (handles m) \<Longrightarrow> h < fresh_id m"
proof -
  assume "h \<in> set (handles m)"
  then have "h \<le> Max (set (0 # handles m))" by (intro Max_ge) auto
  then show ?thesis by (simp add: fresh_id_def handles_def)
qed

lemma ids_handles: "u \<in> set (ids m) \<Longrightarrow> u \<in> set (handles m)"
  by (auto simp: ids_def handles_def inst_handles_def)

lemma find_with_traps:
  "u \<notin> ran g \<Longrightarrow> find (\<lambda>i. inst_id i = u) (with_traps g xs) = find (\<lambda>i. inst_id i = u) xs"
  by (induction xs) (auto simp: trap_inst_def ran_def split: option.splits)

lemma with_traps_cong:
  "(\<And>i. i \<in> set xs \<Longrightarrow> g' (inst_id i) = g (inst_id i)) \<Longrightarrow> with_traps g' xs = with_traps g xs"
  by (induction xs) auto

lemma insert_before_with_traps_gen:
  assumes "distinct (map inst_id blk)" "g u = None" "u \<notin> ran g"
    and "g' u = Some k" "\<And>v. v \<noteq> u \<Longrightarrow> g' v = g v"
  shows "insert_before u (trap_inst k) (with_traps g blk) = with_traps g' blk"
  using assms(1)
proof (induction blk)
  case Nil
  then show ?case by simp
next
  case (Cons x xs)
  have "distinct (map inst_id xs)" using Cons.prems by simp
  then have ih: "insert_before u (trap_inst k) (with_traps g xs) = with_traps g' xs"
    by (rule Cons.IH)
  show ?case
  proof (cases "inst_id x = u")
    case True
    then have "u \<notin> set (map inst_id xs)" using Cons.prems by auto
    then have same: "with_traps g' xs = with_traps g xs"
      by (intro with_traps_cong assms(5)) auto
    show ?thesis using True assms(2,4) same by simp
  next
    case False
    then have gx: "g' (inst_id x) = g (inst_id x)" by (rule assms(5))
    show ?thesis
    proof (cases "g (inst_id x)")
      case None
      then show ?thesis using False ih gx by simp
    next
      case (Some k')
      then have "k' \<noteq> u" using assms(3) by (auto simp: ran_def)
      then show ?thesis using False ih Some gx by (simp add: trap_inst_def)
    qed
  qed
qed

lemma insert_before_with_traps:
  assumes "distinct (map inst_id blk)" "g u = None" "u \<notin> ran g"
  shows "insert_before u (trap_inst k) (with_traps g blk) = with_traps (g(u \<mapsto> k)) blk"
  by (rule insert_before_with_traps_gen[OF assms]) simp_all

lemma distinct_block:
  "distinct (ids m) \<Longrightarrow> b \<in> set (blocks m) \<Longrightarrow> distinct (map inst_id b)"
proof -
  assume d: "distinct (ids m)" and b: "b \<in> set (blocks m)"
  have "distinct (concat (map (map inst_id) (blocks m)))"
    using d by (simp add: ids_def all_insts_blocks map_concat)
  then show ?thesis using b by (auto simp: distinct_concat_iff)
qed

lemma handles_with_traps:
  "set (concat (map inst_handles (with_traps g xs)))
     = set (concat (map inst_handles xs)) \<union> {k. \<exists>i \<in> set xs. g (inst_id i) = Some k}"
  by (induction xs) (auto simp: trap_inst_def inst_handles_def split: option.splits)

lemma handles_map_blocks_with_traps:
  "set (handles (map_blocks (with_traps g) m))
     = set (handles m) \<union> {k. \<exists>u \<in> set (ids m). g u = Some k}"
  unfolding handles_def all_insts_with_traps handles_with_traps ids_def by auto

lemma trapped_fresh:
  assumes "trapped m0 g c"
  shows "\<forall>h \<in> set (handles m0) \<union> ran g. h < fresh_id (c_mod c)"
proof
  fix h assume h: "h \<in> set (handles m0) \<union> ran g"
  have cm: "c_mod c = map_blocks (with_traps g) m0" and d: "dom g \<subseteq> set (ids m0)"
    using assms by (auto simp: trapped_def)
  have "h \<in> set (handles (c_mod c))"
  proof (cases "h \<in> set (handles m0)")
    case True
    then show ?thesis unfolding cm handles_map_blocks_with_traps by simp
  next
    case False
    then obtain u where "g u = Some h" using h by (auto simp: ran_def)
    moreover from this have "u \<in> set (ids m0)" using d by auto
    ultimately show ?thesis unfolding cm handles_map_blocks_with_traps by auto
  qed
  then show "h < fresh_id (c_mod c)" by (rule fresh_id_gt)
qed

lemma find_inst_ids: "find_inst m u = Some i \<Longrightarrow> u \<in> set (ids m) \<and> inst_id i = u \<and> i \<in> set (all_insts m)"
  by (auto simp: find_inst_def ids_def find_Some_iff)

lemma trapUse_step:
  assumes dist: "distinct (ids m0)"
    and inv: "trapped m0 g c"
    and fi: "find_inst m0 u = Some i"
    and call: "calls n i"
    and gu: "g u = None"
  shows "\<exists>k c'. trapUse (VFunc ''llvm.trap'') (VFunc n) u c = (None, c')
           \<and> trapped m0 (g(u \<mapsto> k)) c'"
proof -
  have cm: "c_mod c = map_blocks (with_traps g) m0" and d: "dom g \<subseteq> set (ids m0)"
    and rn: "\<forall>k \<in> ran g. k \<notin> set (handles m0)" and inj: "inj_on g (dom g)"
    using inv by (auto simp: trapped_def)
  have uid: "u \<in> set (ids m0)" using find_inst_ids[OF fi] by simp
  then have uh: "u \<in> set (handles m0)" by (rule ids_handles)
  then have ur: "u \<notin> ran g" using rn by auto
  have f: "find_inst (c_mod c) u = Some i"
    using fi by (simp add: find_inst_def cm all_insts_with_traps find_with_traps[OF ur])
  define k where "k = fresh_id (c_mod c)"
  define c' where "c' = c\<lparr>insert_point := Some u,
      c_mod := map_blocks (insert_before u (trap_inst k)) (c_mod c)\<rparr>"
  have t: "trapUse (VFunc ''llvm.trap'') (VFunc n) u c = (None, c')"
    using f call
    by (simp add: trapUse_def calls_def CreateCall_def build_def SetInsertPointBefore_def Let_def
          c'_def k_def trap_inst_def)
  have fr: "\<forall>h \<in> set (handles m0) \<union> ran g. h < k"
    unfolding k_def using trapped_fresh[OF inv] .
  have k1: "k \<notin> set (handles m0)" and k2: "k \<notin> ran g" using fr by auto
  have m': "c_mod c' = map_blocks (with_traps (g(u \<mapsto> k))) m0"
  proof -
    have "c_mod c' = map_blocks (insert_before u (trap_inst k) \<circ> with_traps g) m0"
      by (simp add: c'_def cm map_blocks_comp)
    also have "\<dots> = map_blocks (with_traps (g(u \<mapsto> k))) m0"
    proof (rule map_blocks_cong)
      fix b assume "b \<in> set (blocks m0)"
      then have "distinct (map inst_id b)" using dist by (rule distinct_block[rotated])
      then show "(insert_before u (trap_inst k) \<circ> with_traps g) b = with_traps (g(u \<mapsto> k)) b"
        using insert_before_with_traps[OF _ gu ur] by simp
    qed
    finally show ?thesis .
  qed
  have "dom (g(u \<mapsto> k)) \<subseteq> set (ids m0)" using d uid by auto
  moreover have "\<forall>x \<in> ran (g(u \<mapsto> k)). x \<notin> set (handles m0)"
    using rn k1 gu by (auto simp: ran_def split: if_splits)
  moreover have "inj_on (g(u \<mapsto> k)) (dom (g(u \<mapsto> k)))"
    using inj k2 gu by (auto simp: inj_on_def ran_def dom_def split: if_splits)
  ultimately have "trapped m0 (g(u \<mapsto> k)) c'" using m' by (simp add: trapped_def)
  with t show ?thesis by blast
qed

lemma trapUses_loop:
  assumes dist: "distinct (ids m0)"
  shows "trapped m0 g c \<Longrightarrow> distinct us
     \<Longrightarrow> (\<forall>u \<in> set us. g u = None \<and> (\<exists>i. find_inst m0 u = Some i \<and> calls n i))
     \<Longrightarrow> \<exists>g' c'. forEach (trapUse (VFunc ''llvm.trap'') (VFunc n)) us c = (None, c')
           \<and> trapped m0 g' c' \<and> dom g' = dom g \<union> set us \<and> (\<forall>v. v \<notin> set us \<longrightarrow> g' v = g v)"
proof (induction us arbitrary: g c)
  case Nil
  then show ?case by auto
next
  case (Cons u us)
  from Cons.prems obtain i where fi: "find_inst m0 u = Some i" and call: "calls n i"
    and gu: "g u = None" by auto
  from trapUse_step[OF dist Cons.prems(1) fi call gu] obtain k c1 where
    t: "trapUse (VFunc ''llvm.trap'') (VFunc n) u c = (None, c1)"
    and inv1: "trapped m0 (g(u \<mapsto> k)) c1" by blast
  have d: "distinct us" and nu: "u \<notin> set us" using Cons.prems(2) by auto
  have pre: "\<forall>v \<in> set us. (g(u \<mapsto> k)) v = None \<and> (\<exists>i. find_inst m0 v = Some i \<and> calls n i)"
    using Cons.prems(3) nu by auto
  from Cons.IH[OF inv1 d pre] obtain g' c' where
    l: "forEach (trapUse (VFunc ''llvm.trap'') (VFunc n)) us c1 = (None, c')"
    and inv': "trapped m0 g' c'" and dm: "dom g' = dom (g(u \<mapsto> k)) \<union> set us"
    and oth: "\<forall>v. v \<notin> set us \<longrightarrow> g' v = (g(u \<mapsto> k)) v" by blast
  have "forEach (trapUse (VFunc ''llvm.trap'') (VFunc n)) (u # us) c = (None, c')"
    using t l by simp
  moreover have "dom g' = dom g \<union> set (u # us)" using dm by auto
  moreover have "\<forall>v. v \<notin> set (u # us) \<longrightarrow> g' v = g v" using oth by auto
  ultimately show ?case using inv' by blast
qed

lemma getUses_uses_in: "v \<noteq> VNil \<Longrightarrow> getUses m v = uses_in v (all_insts m)"
  by (simp add: getUses_def uses_in_def)

lemma uses_of_inst:
  assumes "case inst_body i of Call f args \<Rightarrow> VFunc n \<notin> set args | b \<Rightarrow> VFunc n \<notin> set (operands b)"
  shows "uses_in (VFunc n) [i] = (if calls n i then [inst_id i] else [])"
  using assms
  by (cases "inst_body i")
     (auto simp: uses_in_def calls_def IsACallInst_def CalledValue_def filter_empty_conv)

lemma uses_in_Cons: "uses_in v (x # xs) = uses_in v [x] @ uses_in v xs"
  by (simp add: uses_in_def)

lemma uses_in_only_called:
  "list_all (\<lambda>i. case inst_body i of Call f args \<Rightarrow> VFunc n \<notin> set args
                 | b \<Rightarrow> VFunc n \<notin> set (operands b)) xs
   \<Longrightarrow> uses_in (VFunc n) xs = map inst_id (filter (calls n) xs)"
proof (induction xs)
  case Nil
  then show ?case by (simp add: uses_in_def)
next
  case (Cons x xs)
  then have "uses_in (VFunc n) [x] = (if calls n x then [inst_id x] else [])"
    by (intro uses_of_inst) simp
  then show ?case using Cons uses_in_Cons[of "VFunc n" x xs] by simp
qed

lemma getUses_only_called:
  "only_called n m \<Longrightarrow> getUses m (VFunc n) = map inst_id (filter (calls n) (all_insts m))"
  by (simp add: getUses_uses_in only_called_def uses_in_only_called)

lemma uses_in_with_traps:
  "v \<noteq> VFunc ''llvm.trap'' \<Longrightarrow> uses_in v (with_traps g xs) = uses_in v xs"
proof (induction xs)
  case Nil
  then show ?case by simp
next
  case (Cons x xs)
  have t: "\<And>k. uses_in v [trap_inst k] = []"
    using Cons.prems by (simp add: uses_in_def trap_inst_def)
  show ?case
  proof (cases "g (inst_id x)")
    case None
    then show ?thesis using Cons uses_in_Cons[of v x xs] uses_in_Cons[of v x "with_traps g xs"]
      by simp
  next
    case (Some k)
    have "uses_in v (with_traps g (x # xs)) = uses_in v [trap_inst k] @ uses_in v (x # with_traps g xs)"
      using Some uses_in_Cons[of v "trap_inst k" "x # with_traps g xs"] by simp
    then show ?thesis using Cons t uses_in_Cons[of v x xs] uses_in_Cons[of v x "with_traps g xs"]
      by simp
  qed
qed

lemma find_filter_calls:
  assumes "distinct (map inst_id xs)" "u \<in> set (map inst_id (filter P xs))"
  shows "\<exists>i. find (\<lambda>i. inst_id i = u) xs = Some i \<and> P i"
  using assms
proof (induction xs)
  case Nil
  then show ?case by simp
next
  case (Cons x xs)
  show ?case
  proof (cases "inst_id x = u")
    case True
    then have "u \<notin> set (map inst_id xs)" using Cons.prems(1) by auto
    then have "u \<notin> set (map inst_id (filter P xs))" by auto
    then have "P x" using Cons.prems(2) True by (auto split: if_splits)
    then show ?thesis using True by simp
  next
    case False
    then have "u \<in> set (map inst_id (filter P xs))" using Cons.prems(2) by (auto split: if_splits)
    then show ?thesis using Cons False by simp
  qed
qed

lemma trapName_step:
  assumes dist: "distinct (ids m0)"
    and inv: "trapped m0 g c"
    and oc: "only_called n m0"
    and nt: "n \<noteq> ''llvm.trap''"
    and fresh: "\<forall>i \<in> set (all_insts m0). calls n i \<longrightarrow> g (inst_id i) = None"
  shows "\<exists>g' c'. trapName (VFunc ''llvm.trap'') n c = (None, c') \<and> trapped m0 g' c'
           \<and> (\<forall>i \<in> set (all_insts m0).
                 \<not> (NamedFunction m0 n \<noteq> VNil \<and> calls n i) \<longrightarrow> g' (inst_id i) = g (inst_id i))
           \<and> (\<forall>i \<in> set (all_insts m0). NamedFunction m0 n \<noteq> VNil \<and> calls n i \<longrightarrow> g' (inst_id i) \<noteq> None)"
proof (cases "NamedFunction m0 n = VNil")
  case True
  have cm: "c_mod c = map_blocks (with_traps g) m0" using inv by (simp add: trapped_def)
  have "trapName (VFunc ''llvm.trap'') n c = (None, c)"
    using True by (simp add: trapName_def cm)
  then show ?thesis using inv True by auto
next
  case False
  have cm: "c_mod c = map_blocks (with_traps g) m0" using inv by (simp add: trapped_def)
  have nf: "NamedFunction (c_mod c) n = VFunc n"
    using False by (simp add: cm NamedFunction_def split: if_splits)
  let ?us = "map inst_id (filter (calls n) (all_insts m0))"
  have us: "getUses (c_mod c) (VFunc n) = ?us"
    using getUses_only_called[OF oc] nt
    by (simp add: getUses_uses_in cm all_insts_with_traps uses_in_with_traps)
  have d: "distinct ?us" using dist by (simp add: ids_def distinct_map_filter)
  have pre: "\<forall>u \<in> set ?us. g u = None \<and> (\<exists>i. find_inst m0 u = Some i \<and> calls n i)"
  proof
    fix u assume u: "u \<in> set ?us"
    then have "g u = None" using fresh by auto
    moreover have "\<exists>i. find_inst m0 u = Some i \<and> calls n i"
      unfolding find_inst_def using find_filter_calls[OF dist[unfolded ids_def] u] .
    ultimately show "g u = None \<and> (\<exists>i. find_inst m0 u = Some i \<and> calls n i)" by simp
  qed
  from trapUses_loop[OF dist inv d pre] obtain g' c' where
    l: "forEach (trapUse (VFunc ''llvm.trap'') (VFunc n)) ?us c = (None, c')"
    and inv': "trapped m0 g' c'" and dm: "dom g' = dom g \<union> set ?us"
    and oth: "\<forall>v. v \<notin> set ?us \<longrightarrow> g' v = g v" by blast
  have t: "trapName (VFunc ''llvm.trap'') n c = (None, c')"
    using l by (simp add: trapName_def nf us Let_def)
  have a: "\<forall>i \<in> set (all_insts m0).
                 \<not> (NamedFunction m0 n \<noteq> VNil \<and> calls n i) \<longrightarrow> g' (inst_id i) = g (inst_id i)"
  proof (intro ballI impI)
    fix i assume i: "i \<in> set (all_insts m0)"
      and "\<not> (NamedFunction m0 n \<noteq> VNil \<and> calls n i)"
    then have nc: "\<not> calls n i" using False by simp
    show "g' (inst_id i) = g (inst_id i)"
    proof -
      have "inst_id i \<notin> set ?us"
      proof
        assume "inst_id i \<in> set ?us"
        then obtain j where j: "j \<in> set (all_insts m0)" "calls n j" "inst_id j = inst_id i" by auto
        then have "j = i" using dist i by (auto simp: ids_def dest: inj_on_eq_iff[OF iffD1[OF distinct_map, THEN conjunct2]])
        then show False using nc j by simp
      qed
      then show ?thesis using oth by simp
    qed
  qed
  have b: "\<forall>i \<in> set (all_insts m0). NamedFunction m0 n \<noteq> VNil \<and> calls n i \<longrightarrow> g' (inst_id i) \<noteq> None"
  proof (intro ballI impI)
    fix i assume "i \<in> set (all_insts m0)" "NamedFunction m0 n \<noteq> VNil \<and> calls n i"
    then have "inst_id i \<in> set ?us" by auto
    then have "inst_id i \<in> dom g'" using dm by simp
    then show "g' (inst_id i) \<noteq> None" by auto
  qed
  from t inv' a b show ?thesis by blast
qed

lemma calls_unique: "calls n i \<Longrightarrow> calls n' i \<Longrightarrow> n = n'"
  by (auto simp: calls_def)

text \<open>
  When \<open>llvm.trap\<close> is declared, the identifiers are distinct and the two panic functions
  are operands only as called values, \<open>replacePanicsWithTrap\<close> ends without a fault and the
  module it leaves is the old one with one call of \<open>llvm.trap\<close> immediately before each
  call of a declared panic function, in the same block; the calls themselves and every
  other instruction stay. (Supports C5 on the modules that declare \<open>llvm.trap\<close>.)
\<close>

lemma replacePanicsWithTrap_inserts_traps:
  assumes dist: "distinct (ids (c_mod c))"
    and trap: "NamedFunction (c_mod c) ''llvm.trap'' \<noteq> VNil"
    and oc1: "only_called ''runtime._panic'' (c_mod c)"
    and oc2: "only_called ''runtime.runtimePanic'' (c_mod c)"
  shows "\<exists>g c'. replacePanicsWithTrap c = (None, c')
           \<and> c_mod c' = map_blocks (with_traps g) (c_mod c)
           \<and> (\<forall>i \<in> set (all_insts (c_mod c)). (g (inst_id i) \<noteq> None) = panic_call (c_mod c) i)
           \<and> dom g \<subseteq> set (ids (c_mod c))
           \<and> (\<forall>k \<in> ran g. k \<notin> set (handles (c_mod c)))
           \<and> inj_on g (dom g)"
proof -
  let ?m = "c_mod c"
  have tr: "NamedFunction ?m ''llvm.trap'' = VFunc ''llvm.trap''"
    using trap by (simp add: NamedFunction_def split: if_splits)
  have "map_blocks (with_traps Map.empty) ?m = ?m"
    by (rule map_blocks_id) (rule with_traps_empty)
  then have inv0: "trapped ?m Map.empty c" by (simp add: trapped_def)
  from trapName_step[OF dist inv0 oc1] obtain g1 c1 where
    t1: "trapName (VFunc ''llvm.trap'') ''runtime._panic'' c = (None, c1)"
    and inv1: "trapped ?m g1 c1"
    and a1: "\<forall>i \<in> set (all_insts ?m).
                 \<not> (NamedFunction ?m ''runtime._panic'' \<noteq> VNil \<and> calls ''runtime._panic'' i)
                   \<longrightarrow> g1 (inst_id i) = None"
    and b1: "\<forall>i \<in> set (all_insts ?m). NamedFunction ?m ''runtime._panic'' \<noteq> VNil \<and> calls ''runtime._panic'' i
                 \<longrightarrow> g1 (inst_id i) \<noteq> None"
    by auto
  have fresh2: "\<forall>i \<in> set (all_insts ?m). calls ''runtime.runtimePanic'' i \<longrightarrow> g1 (inst_id i) = None"
  proof (intro ballI impI)
    fix i assume i: "i \<in> set (all_insts ?m)" and c2: "calls ''runtime.runtimePanic'' i"
    have "\<not> calls ''runtime._panic'' i" using calls_unique[OF c2] by auto
    then show "g1 (inst_id i) = None" using a1 i by simp
  qed
  from trapName_step[OF dist inv1 oc2 _ fresh2] obtain g2 c2 where
    t2: "trapName (VFunc ''llvm.trap'') ''runtime.runtimePanic'' c1 = (None, c2)"
    and inv2: "trapped ?m g2 c2"
    and a2: "\<forall>i \<in> set (all_insts ?m).
                 \<not> (NamedFunction ?m ''runtime.runtimePanic'' \<noteq> VNil \<and> calls ''runtime.runtimePanic'' i)
                   \<longrightarrow> g2 (inst_id i) = g1 (inst_id i)"
    and b2: "\<forall>i \<in> set (all_insts ?m). NamedFunction ?m ''runtime.runtimePanic'' \<noteq> VNil
                 \<and> calls ''runtime.runtimePanic'' i \<longrightarrow> g2 (inst_id i) \<noteq> None"
    by auto
  have r: "replacePanicsWithTrap c = (None, c2)"
    using t1 t2 by (simp add: replacePanicsWithTrap_def tr)
  have dom: "\<forall>i \<in> set (all_insts ?m). (g2 (inst_id i) \<noteq> None) = panic_call ?m i"
  proof
    fix i assume i: "i \<in> set (all_insts ?m)"
    show "(g2 (inst_id i) \<noteq> None) = panic_call ?m i"
    proof (cases "NamedFunction ?m ''runtime.runtimePanic'' \<noteq> VNil \<and> calls ''runtime.runtimePanic'' i")
      case True
      then show ?thesis using b2 i by (auto simp: panic_call_def)
    next
      case False
      then have e: "g2 (inst_id i) = g1 (inst_id i)" using a2 i by auto
      show ?thesis
      proof (cases "NamedFunction ?m ''runtime._panic'' \<noteq> VNil \<and> calls ''runtime._panic'' i")
        case True
        then show ?thesis using b1 i e by (auto simp: panic_call_def)
      next
        case F2: False
        then have "g1 (inst_id i) = None" using a1 i by auto
        then show ?thesis using e False F2 by (auto simp: panic_call_def)
      qed
    qed
  qed
  show ?thesis using r inv2 dom unfolding trapped_def by blast
qed

lemma traps_added_refl: "traps_added m m"
  by (auto simp: traps_added_def ids_def filter_id_conv)

lemma find_filter_weaker:
  "(\<And>x. P x \<Longrightarrow> Q x) \<Longrightarrow> find P (filter Q xs) = find P xs"
  by (induction xs) auto

lemma traps_added_find:
  assumes "traps_added m0 m" "u \<in> set (ids m0)"
  shows "find_inst m u = find_inst m0 u"
proof -
  have "find (\<lambda>i. inst_id i = u) (filter (\<lambda>i. inst_id i \<in> set (ids m0)) (all_insts m))
          = find (\<lambda>i. inst_id i = u) (all_insts m)"
    using assms(2) by (intro find_filter_weaker) simp
  then show ?thesis using assms(1) by (simp add: find_inst_def traps_added_def)
qed

lemma uses_in_filter:
  "(\<And>x. x \<in> set xs \<Longrightarrow> \<not> Q x \<Longrightarrow> uses_in v [x] = []) \<Longrightarrow> uses_in v (filter Q xs) = uses_in v xs"
proof (induction xs)
  case Nil
  then show ?case by simp
next
  case (Cons x xs)
  have ih: "uses_in v (filter Q xs) = uses_in v xs" using Cons by simp
  show ?case
  proof (cases "Q x")
    case True
    then show ?thesis using ih uses_in_Cons[of v x xs] uses_in_Cons[of v x "filter Q xs"] by simp
  next
    case False
    then have "uses_in v [x] = []" using Cons.prems by simp
    then show ?thesis using False ih uses_in_Cons[of v x xs] by simp
  qed
qed

lemma traps_added_uses:
  assumes "traps_added m0 m" "v \<noteq> VFunc ''llvm.trap''" "v \<noteq> VNil"
  shows "getUses m v = getUses m0 v"
proof -
  have "uses_in v (filter (\<lambda>i. inst_id i \<in> set (ids m0)) (all_insts m)) = uses_in v (all_insts m)"
  proof (rule uses_in_filter)
    fix x assume "x \<in> set (all_insts m)" "\<not> inst_id x \<in> set (ids m0)"
    then have "inst_body x = Call (VFunc ''llvm.trap'') []"
      using assms(1) by (simp add: traps_added_def)
    then show "uses_in v [x] = []" using assms(2) by (simp add: uses_in_def)
  qed
  then show ?thesis using assms by (simp add: getUses_uses_in traps_added_def)
qed

lemma filter_insert_before:
  "\<not> Q new \<Longrightarrow> filter Q (insert_before u new b) = filter Q b"
  by (induction b) auto

lemma set_insert_before: "set (insert_before u new b) \<subseteq> insert new (set b)"
  by (induction b) auto

lemma all_insts_insert_filter:
  assumes "\<not> Q new"
  shows "filter Q (all_insts (map_blocks (insert_before u new) m)) = filter Q (all_insts m)"
proof -
  have "filter Q (concat (map (insert_before u new) bs)) = filter Q (concat bs)" for bs
    using assms by (induction bs) (simp_all add: filter_insert_before)
  then show ?thesis by (simp add: all_insts_blocks blocks_map_blocks)
qed

lemma all_insts_insert_set:
  "set (all_insts (map_blocks (insert_before u new) m)) \<subseteq> insert new (set (all_insts m))"
proof -
  have "set (concat (map (insert_before u new) bs)) \<subseteq> insert new (set (concat bs))" for bs
    using set_insert_before[of u new] by (induction bs) auto
  then show ?thesis by (simp add: all_insts_blocks blocks_map_blocks)
qed

lemma trapUse_outcome:
  assumes ta: "traps_added m0 (c_mod c)"
    and fi: "find_inst m0 u = Some i"
    and tr: "trap = VFunc ''llvm.trap''"
    and r: "trapUse trap (VFunc n) u c = (r, c')"
  shows "(r = None \<and> traps_added m0 (c_mod c') \<and> calls n i)
       \<or> (r = Some (GoPanic ''expected use of a panic function to be a call'') \<and> \<not> calls n i)"
proof -
  have uid: "u \<in> set (ids m0)" using find_inst_ids[OF fi] by simp
  have f: "find_inst (c_mod c) u = Some i" using traps_added_find[OF ta uid] fi by simp
  show ?thesis
  proof (cases "calls n i")
    case False
    then show ?thesis using r f by (auto simp: trapUse_def calls_def)
  next
    case True
    define k where "k = fresh_id (c_mod c)"
    let ?new = "\<lparr>inst_id = k, inst_body = Call (VFunc ''llvm.trap'') []\<rparr>"
    have c': "c' = c\<lparr>insert_point := Some u, c_mod := map_blocks (insert_before u ?new) (c_mod c)\<rparr>"
      and rn: "r = None"
      using r f True tr
      by (auto simp: trapUse_def calls_def CreateCall_def build_def SetInsertPointBefore_def Let_def k_def)
    have e: "filter (\<lambda>i. inst_id i \<in> set (ids m0)) (all_insts (c_mod c)) = all_insts m0"
      using ta by (simp add: traps_added_def)
    have sub: "set (all_insts m0) \<subseteq> set (all_insts (c_mod c))"
      unfolding e[symmetric] by auto
    have "k \<notin> set (ids m0)"
    proof
      assume "k \<in> set (ids m0)"
      then have "k \<in> set (ids (c_mod c))" using sub by (auto simp: ids_def)
      then have "k < fresh_id (c_mod c)" by (intro fresh_id_gt ids_handles)
      then show False by (simp add: k_def)
    qed
    then have nq: "\<not> inst_id ?new \<in> set (ids m0)" by simp
    have "traps_added m0 (c_mod c')"
      unfolding traps_added_def
    proof (intro conjI ballI impI)
      show "map fn_name (c_mod c') = map fn_name m0"
        using ta by (simp add: c' traps_added_def)
      show "filter (\<lambda>i. inst_id i \<in> set (ids m0)) (all_insts (c_mod c')) = all_insts m0"
        using all_insts_insert_filter[of "\<lambda>i. inst_id i \<in> set (ids m0)" ?new u "c_mod c", OF nq] ta
        by (simp add: c' traps_added_def)
    next
      fix j assume j: "j \<in> set (all_insts (c_mod c'))" and n: "inst_id j \<notin> set (ids m0)"
      have "j = ?new \<or> j \<in> set (all_insts (c_mod c))"
        using j all_insts_insert_set[of u ?new "c_mod c"] by (auto simp: c')
      then show "inst_body j = Call (VFunc ''llvm.trap'') []"
        using n ta by (auto simp: traps_added_def)
    qed
    then show ?thesis using rn True by simp
  qed
qed

lemma trapUses_outcome:
  assumes tr: "trap = VFunc ''llvm.trap''"
  shows "traps_added m0 (c_mod c) \<Longrightarrow> \<forall>u \<in> set us. find_inst m0 u \<noteq> None
     \<Longrightarrow> forEach (trapUse trap (VFunc n)) us c = (r, c')
     \<Longrightarrow> (r = None \<and> traps_added m0 (c_mod c')
            \<and> (\<forall>u \<in> set us. \<exists>i. find_inst m0 u = Some i \<and> calls n i))
       \<or> (r = Some (GoPanic ''expected use of a panic function to be a call''))"
proof (induction us arbitrary: c)
  case Nil
  then show ?case by simp
next
  case (Cons u us)
  obtain i where fi: "find_inst m0 u = Some i" using Cons.prems(2) by auto
  obtain r1 c1 where t: "trapUse trap (VFunc n) u c = (r1, c1)"
    by (cases "trapUse trap (VFunc n) u c")
  from trapUse_outcome[OF Cons.prems(1) fi tr t]
  show ?case
  proof
    assume a: "r1 = None \<and> traps_added m0 (c_mod c1) \<and> calls n i"
    then have l: "forEach (trapUse trap (VFunc n)) us c1 = (r, c')"
      using Cons.prems(3) t by simp
    have "\<forall>u \<in> set us. find_inst m0 u \<noteq> None" using Cons.prems(2) by simp
    from Cons.IH[OF _ this l] a fi show ?thesis by auto
  next
    assume "r1 = Some (GoPanic ''expected use of a panic function to be a call'') \<and> \<not> calls n i"
    then show ?thesis using Cons.prems(3) t by simp
  qed
qed

lemma uses_in_ids: "u \<in> set (uses_in v xs) \<Longrightarrow> u \<in> inst_id ` set xs"
  by (auto simp: uses_in_def)

lemma find_by_id: "u \<in> inst_id ` set xs \<Longrightarrow> \<exists>y. find (\<lambda>i. inst_id i = u) xs = Some y"
  by (induction xs) auto

lemma trapName_outcome:
  assumes tr: "trap = VFunc ''llvm.trap''"
    and nt: "n \<noteq> ''llvm.trap''"
    and ta: "traps_added m0 (c_mod c)"
    and r: "trapName trap n c = (r, c')"
  shows "(r = None \<and> traps_added m0 (c_mod c')
            \<and> (NamedFunction m0 n \<noteq> VNil \<longrightarrow>
                 (\<forall>u \<in> set (getUses m0 (VFunc n)). \<exists>i. find_inst m0 u = Some i \<and> calls n i)))
       \<or> (r = Some (GoPanic ''expected use of a panic function to be a call''))"
proof -
  have nm: "NamedFunction (c_mod c) n = NamedFunction m0 n"
    using ta by (simp add: NamedFunction_def traps_added_def)
  show ?thesis
  proof (cases "NamedFunction m0 n = VNil")
    case True
    then show ?thesis using r ta nm by (simp add: trapName_def)
  next
    case False
    then have nf: "NamedFunction m0 n = VFunc n" by (simp add: NamedFunction_def split: if_splits)
    have us: "getUses (c_mod c) (VFunc n) = getUses m0 (VFunc n)"
      using traps_added_uses[OF ta] nt by simp
    have l: "forEach (trapUse trap (VFunc n)) (getUses m0 (VFunc n)) c = (r, c')"
      using r nm nf us by (simp add: trapName_def Let_def)
    have "\<forall>u \<in> set (getUses m0 (VFunc n)). find_inst m0 u \<noteq> None"
    proof
      fix u assume "u \<in> set (getUses m0 (VFunc n))"
      then have "u \<in> inst_id ` set (all_insts m0)"
        using uses_in_ids[of u "VFunc n" "all_insts m0"] by (simp add: getUses_uses_in)
      from find_by_id[OF this] show "find_inst m0 u \<noteq> None" by (auto simp: find_inst_def)
    qed
    from trapUses_outcome[OF tr ta this l] show ?thesis by auto
  qed
qed

lemma find_distinct:
  "distinct (map inst_id xs) \<Longrightarrow> i \<in> set xs \<Longrightarrow> find (\<lambda>j. inst_id j = inst_id i) xs = Some i"
  by (induction xs) (auto simp: image_iff)

lemma user_in_uses:
  "i \<in> set xs \<Longrightarrow> v \<in> set (operands (inst_body i)) \<Longrightarrow> inst_id i \<in> set (uses_in v xs)"
  by (auto simp: uses_in_def intro!: bexI[of _ i])

text \<open>
  When \<open>llvm.trap\<close> is declared and some instruction has a declared panic function as an
  operand without being a call of it, \<open>replacePanicsWithTrap\<close> ends with the Go panic of
  line 154. (Supports C5 on the modules that declare \<open>llvm.trap\<close>.)
\<close>

lemma replacePanicsWithTrap_panics:
  assumes dist: "distinct (ids (c_mod c))"
    and trap: "NamedFunction (c_mod c) ''llvm.trap'' \<noteq> VNil"
    and n: "n = ''runtime._panic'' \<or> n = ''runtime.runtimePanic''"
    and decl: "NamedFunction (c_mod c) n \<noteq> VNil"
    and i: "i \<in> set (all_insts (c_mod c))"
    and use: "VFunc n \<in> set (operands (inst_body i))"
    and bad: "\<not> calls n i"
  shows "fst (replacePanicsWithTrap c) = Some (GoPanic ''expected use of a panic function to be a call'')"
proof -
  let ?m = "c_mod c"
  let ?msg = "GoPanic ''expected use of a panic function to be a call''"
  have tr: "NamedFunction ?m ''llvm.trap'' = VFunc ''llvm.trap''"
    using trap by (simp add: NamedFunction_def split: if_splits)
  have fi: "find_inst ?m (inst_id i) = Some i"
    using find_distinct[OF dist[unfolded ids_def] i] by (simp add: find_inst_def)
  have iu: "inst_id i \<in> set (getUses ?m (VFunc n))"
    using user_in_uses[OF i use] by (simp add: getUses_uses_in)
  have notall: "\<not> (NamedFunction ?m n \<noteq> VNil \<longrightarrow>
                 (\<forall>u \<in> set (getUses ?m (VFunc n)). \<exists>j. find_inst ?m u = Some j \<and> calls n j))"
  proof
    assume "NamedFunction ?m n \<noteq> VNil \<longrightarrow>
                 (\<forall>u \<in> set (getUses ?m (VFunc n)). \<exists>j. find_inst ?m u = Some j \<and> calls n j)"
    then obtain j where "find_inst ?m (inst_id i) = Some j" "calls n j" using decl iu by blast
    then show False using fi bad by simp
  qed
  obtain r1 c1 where t1: "trapName (VFunc ''llvm.trap'') ''runtime._panic'' c = (r1, c1)"
    by (cases "trapName (VFunc ''llvm.trap'') ''runtime._panic'' c")
  from trapName_outcome[OF refl _ traps_added_refl t1]
  have o1: "(r1 = None \<and> traps_added ?m (c_mod c1)
            \<and> (NamedFunction ?m ''runtime._panic'' \<noteq> VNil \<longrightarrow>
                 (\<forall>u \<in> set (getUses ?m (VFunc ''runtime._panic'')).
                     \<exists>i. find_inst ?m u = Some i \<and> calls ''runtime._panic'' i)))
       \<or> r1 = Some ?msg" by simp
  show ?thesis
  proof (cases r1)
    case (Some f)
    then have "r1 = Some ?msg" using o1 by auto
    then show ?thesis using t1 by (simp add: replacePanicsWithTrap_def tr)
  next
    case None
    then have ta1: "traps_added ?m (c_mod c1)"
      and ok1: "NamedFunction ?m ''runtime._panic'' \<noteq> VNil \<longrightarrow>
                 (\<forall>u \<in> set (getUses ?m (VFunc ''runtime._panic'')).
                     \<exists>i. find_inst ?m u = Some i \<and> calls ''runtime._panic'' i)"
      using o1 by auto
    then have n2: "n = ''runtime.runtimePanic''" using n notall by auto
    obtain r2 c2 where t2: "trapName (VFunc ''llvm.trap'') ''runtime.runtimePanic'' c1 = (r2, c2)"
      by (cases "trapName (VFunc ''llvm.trap'') ''runtime.runtimePanic'' c1")
    from trapName_outcome[OF refl _ ta1 t2] notall n2
    have "r2 = Some ?msg" by auto
    then show ?thesis using t1 t2 None by (simp add: replacePanicsWithTrap_def tr)
  qed
qed

text \<open>
  Under the \<open>trap\<close> strategy the trap rewrite is the first phase of every run.
\<close>

lemma trap_rewrite_runs_first:
  assumes "PanicStrategy c = ''trap''"
  shows "\<exists>rest. run_events E optLevel sizeLevel t c = EvReplacePanicsWithTrap # rest"
proof -
  obtain ob where
    ev: "run_events E optLevel sizeLevel t c
           = fst (run_shape (PanicStrategy c = ''trap'') (VerifyIR c) optLevel sizeLevel t ob)"
    using run_has_shape by blast
  show ?thesis unfolding ev using assms
    by (auto simp: run_shape_def shape_leading_def Let_def split: prod.splits option.splits if_splits)
qed

text \<open>
  Claim C5, at an input where the code does not do what the claim says. The module of
  \<open>untrapped\<close> has one use of \<open>runtime._panic\<close>, a direct call, and no function \<open>llvm.trap\<close>.
  Line 146 looks \<open>llvm.trap\<close> up and, unlike line 149 for the panic functions, does not
  test the result; line 157 then builds a call of the nil handle. No trap is inserted:
  the rewrite ends with a fault, the module is as before, and \<open>Optimize\<close> ends with that
  fault as its first and only phase.
\<close>

theorem trap_rewrite_without_declared_trap:
  "NamedFunction (c_mod untrapped) ''llvm.trap'' = VNil
   \<and> getUses (c_mod untrapped) (VFunc ''runtime._panic'') = [1]
   \<and> map_option inst_body (find_inst (c_mod untrapped) 1)
       = Some (Call (VFunc ''runtime._panic'') [VOther 0 (Ty 1)])
   \<and> fst (replacePanicsWithTrap untrapped) = Some InvalidHandle
   \<and> c_mod (snd (replacePanicsWithTrap untrapped)) = c_mod untrapped
   \<and> run_exit quiet 1 0 0 untrapped = Panics InvalidHandle
   \<and> run_events quiet 1 0 0 untrapped = [EvReplacePanicsWithTrap]"
  by (simp add: eval_defs env_defs untrapped_def untrapped_module_def)

lemma all_insts_map: "all_insts (map_blocks (map f) m) = map f (all_insts m)"
  by (simp add: all_insts_blocks blocks_map_blocks map_concat)

lemma all_insts_filter: "all_insts (map_blocks (filter P) m) = filter P (all_insts m)"
  by (simp add: all_insts_blocks blocks_map_blocks filter_concat)

lemma lowered_id:
  "inst_id (lowered m g i) = (case g (inst_id i) of Some k \<Rightarrow> k | None \<Rightarrow> inst_id i)"
  by (simp add: lowered_def compare_null_def split: option.splits)

lemma redirect_empty: "redirect Map.empty v = v"
  by (cases v) (simp_all add: redirect_def)

lemma map_operands_id: "(\<And>v. f v = v) \<Longrightarrow> map_operands f b = b"
  by (cases b) (simp_all add: map_idI)

lemma map_operands_comp: "map_operands f (map_operands h b) = map_operands (f \<circ> h) b"
  by (cases b) simp_all

lemma map_operands_cong:
  "(\<And>v. v \<in> set (operands b) \<Longrightarrow> f v = h v) \<Longrightarrow> map_operands f b = map_operands h b"
  by (cases b) auto

lemma operands_map_operands: "operands (map_operands f b) = map f (operands b)"
  by (cases b) simp_all

lemma lowered_empty: "lowered m Map.empty i = i"
  by (simp add: lowered_def map_operands_id redirect_empty)

lemma find_lowered:
  assumes "u \<notin> ran g" "g u = None"
  shows "find (\<lambda>i. inst_id i = u) (map (lowered m g) xs)
           = map_option (lowered m g) (find (\<lambda>i. inst_id i = u) xs)"
proof (induction xs)
  case Nil
  then show ?case by simp
next
  case (Cons x xs)
  show ?case
  proof (cases "g (inst_id x)")
    case None
    then show ?thesis using Cons by (simp add: lowered_id)
  next
    case (Some k)
    then have "k \<noteq> u" "inst_id x \<noteq> u" using assms by (auto simp: ran_def)
    then show ?thesis using Cons Some by (simp add: lowered_id)
  qed
qed

lemma subst_redirect:
  assumes "g u = None" "u \<notin> ran g"
  shows "subst_val u (VInst k I1) (redirect g v) = redirect (g(u \<mapsto> k)) v"
proof (cases v)
  case (VInst j t)
  show ?thesis
  proof (cases "g j")
    case None
    then show ?thesis using VInst by (simp add: redirect_def)
  next
    case (Some kj)
    then have "kj \<noteq> u" "j \<noteq> u" using assms by (auto simp: ran_def)
    then show ?thesis using VInst Some by (simp add: redirect_def)
  qed
qed (simp_all add: redirect_def)

lemma filter_map_insert_before:
  assumes "distinct (map inst_id b)" "inst_id new \<noteq> u" "\<And>x. inst_id (R x) = inst_id x"
  shows "filter (\<lambda>i. inst_id i \<noteq> u) (map R (insert_before u new b))
           = map (\<lambda>x. if inst_id x = u then R new else R x) b"
  using assms(1)
proof (induction b)
  case Nil
  then show ?case by simp
next
  case (Cons x xs)
  show ?case
  proof (cases "inst_id x = u")
    case True
    then have "u \<notin> inst_id ` set xs" using Cons.prems by simp
    then have "\<forall>y \<in> set xs. inst_id y \<noteq> u" by (auto simp: image_iff)
    then have "filter (\<lambda>i. inst_id i \<noteq> u) (map R xs) = map (\<lambda>x. if inst_id x = u then R new else R x) xs"
      by (induction xs) (auto simp: assms(3))
    then show ?thesis using True assms(2,3) by simp
  next
    case False
    then show ?thesis using Cons assms(3) by simp
  qed
qed

section \<open>The \<open>runtime.isnil\<close> rewrite replaces each call by a comparison with null\<close>

lemma lowerIsnilUse_eval:
  assumes "find_inst (c_mod c) u = Some j"
  shows "lowerIsnilUse u c =
     (None, c\<lparr>insert_point := Some u,
              c_mod := EraseFromParentAsInstruction u
                 (ReplaceAllUsesWith u (VInst (fresh_id (c_mod c)) I1)
                    (map_blocks (insert_before u
                        (compare_null (fresh_id (c_mod c)) (unwrap (c_mod c) (Operand0 (inst_body j)))))
                      (c_mod c)))\<rparr>)"
  using assms
  by (simp add: lowerIsnilUse_def SetInsertPointBefore_def CreateICmp_def build_def Let_def
        ConstPointerNull_def compare_null_def unwrap_def)

lemma isnil_call_shape:
  assumes "pointer_operands_ok m" "i \<in> set (all_insts m)" "calls ''runtime.isnil'' i"
  shows "\<exists>p args. inst_body i = Call (VFunc ''runtime.isnil'') (p # args)
           \<and> \<not> from_isnil m p \<and> \<not> from_isnil m (unwrap m p)"
proof -
  have "case inst_body i of
          Call f (p # args) \<Rightarrow> \<not> from_isnil m p \<and> \<not> from_isnil m (unwrap m p)
        | _ \<Rightarrow> False"
    using assms by (auto simp: pointer_operands_ok_def list_all_iff)
  then show ?thesis using assms(3)
    by (auto simp: calls_def IsACallInst_def CalledValue_def split: instr.splits list.splits)
qed

lemma redirect_not_from_isnil:
  "dom g \<subseteq> set (isnil_ids m) \<Longrightarrow> \<not> from_isnil m v \<Longrightarrow> redirect g v = v"
  by (cases v) (auto simp: redirect_def from_isnil_def split: option.splits)

lemma subst_not_from_isnil:
  "u \<in> set (isnil_ids m) \<Longrightarrow> \<not> from_isnil m v \<Longrightarrow> subst_val u new v = v"
  by (cases v) (auto simp: from_isnil_def)

lemma operand_handles:
  "i \<in> set (all_insts m) \<Longrightarrow> VInst b t \<in> set (operands (inst_body i)) \<Longrightarrow> b \<in> set (handles m)"
  by (force simp: handles_def inst_handles_def)

lemma find_inst_lowered:
  assumes "u \<notin> ran g" "g u = None"
  shows "find_inst (map_blocks (map (lowered m g)) m) u = map_option (lowered m g) (find_inst m u)"
  by (simp add: find_inst_def all_insts_map find_lowered[OF assms])

lemma unwrap_lowered:
  assumes dom: "dom g \<subseteq> set (isnil_ids m)"
    and ran: "\<forall>k \<in> ran g. k \<notin> set (handles m)"
    and p: "\<not> from_isnil m p" "\<not> from_isnil m (unwrap m p)"
    and h: "\<And>b t. p = VInst b t \<Longrightarrow> b \<in> set (handles m)"
  shows "unwrap (map_blocks (map (lowered m g)) m) p = unwrap m p"
proof (cases p)
  case (VInst b t)
  have bh: "b \<in> set (handles m)" using h VInst by simp
  then have br: "b \<notin> ran g" using ran by auto
  have bg: "g b = None" using dom p(1) VInst by (auto simp: from_isnil_def)
  have f: "find_inst (map_blocks (map (lowered m g)) m) b = map_option (lowered m g) (find_inst m b)"
    by (rule find_inst_lowered[OF br bg])
  show ?thesis
  proof (cases "find_inst m b")
    case None
    then show ?thesis using f VInst by (simp add: unwrap_def IsABitCastInst_def inst_of_def)
  next
    case (Some ib)
    then have "inst_id ib = b" using find_inst_ids by blast
    then have L: "lowered m g ib = ib\<lparr>inst_body := map_operands (redirect g) (inst_body ib)\<rparr>"
      using bg by (simp add: lowered_def)
    show ?thesis
    proof (cases "inst_body ib")
      case (BitCast x)
      then have "unwrap m p = x"
        using Some VInst by (simp add: unwrap_def IsABitCastInst_def inst_of_def Operand0_of_def Operand0_def)
      then have "redirect g x = x" using p(2) dom by (simp add: redirect_not_from_isnil)
      then show ?thesis using f Some VInst L BitCast
        by (simp add: unwrap_def IsABitCastInst_def inst_of_def Operand0_of_def Operand0_def)
    next
      case (Call f' args)
      then show ?thesis using f Some VInst L
        by (simp add: unwrap_def IsABitCastInst_def inst_of_def)
    next
      case (ICmp pr a b')
      then show ?thesis using f Some VInst L
        by (simp add: unwrap_def IsABitCastInst_def inst_of_def)
    next
      case (Other n vs)
      then show ?thesis using f Some VInst L
        by (simp add: unwrap_def IsABitCastInst_def inst_of_def)
    qed
  qed
qed (simp_all add: unwrap_def IsABitCastInst_def inst_of_def)

lemma lower_block_step:
  assumes "distinct (map inst_id b)"
    and "\<And>y. y \<in> set b \<Longrightarrow> inst_id y \<noteq> u \<Longrightarrow> inst_id (L y) \<noteq> u \<and> R (L y) = L' y"
    and "\<And>y. y \<in> set b \<Longrightarrow> inst_id y = u \<Longrightarrow> inst_id (L y) = u \<and> R new = L' y"
    and "inst_id new \<noteq> u" and "\<And>x. inst_id (R x) = inst_id x"
  shows "filter (\<lambda>i. inst_id i \<noteq> u) (map R (insert_before u new (map L b))) = map L' b"
  using assms(1,2,3)
proof (induction b)
  case Nil
  then show ?case by simp
next
  case (Cons x xs)
  have d: "distinct (map inst_id xs)" using Cons.prems(1) by simp
  show ?case
  proof (cases "inst_id x = u")
    case True
    have x: "inst_id (L x) = u" "R new = L' x" using Cons.prems(3)[of x] True by simp_all
    have "u \<notin> inst_id ` set xs" using Cons.prems(1) True by auto
    then have nu: "\<forall>y \<in> set xs. inst_id y \<noteq> u" by (auto simp: image_iff)
    have rest: "filter (\<lambda>i. inst_id i \<noteq> u) (map R (map L ys)) = map L' ys"
      if "set ys \<subseteq> set xs" for ys
      using that
    proof (induction ys)
      case Nil
      then show ?case by simp
    next
      case (Cons y ys)
      then have yin: "y \<in> set (x # xs)" and yu: "inst_id y \<noteq> u" using nu by auto
      have a: "inst_id (L y) \<noteq> u" and b: "R (L y) = L' y"
        using \<open>\<And>y. y \<in> set (x # xs) \<Longrightarrow> inst_id y \<noteq> u \<Longrightarrow> inst_id (L y) \<noteq> u \<and> R (L y) = L' y\<close>[OF yin yu]
        by simp_all
      have "inst_id (R (L y)) \<noteq> u" using a assms(5) by simp
      then have c: "inst_id (L' y) \<noteq> u" using b by simp
      have "filter (\<lambda>i. inst_id i \<noteq> u) (map R (map L ys)) = map L' ys"
        using Cons by simp
      then show ?case using b c by simp
    qed
    have "inst_id (R new) \<noteq> u" using assms(4,5) by simp
    then have "inst_id (L' x) \<noteq> u" using x(2) by simp
    then show ?thesis using x rest[of xs] assms(5) by simp
  next
    case False
    have x: "inst_id (L x) \<noteq> u" "R (L x) = L' x" using Cons.prems(2)[of x] False by simp_all
    have "filter (\<lambda>i. inst_id i \<noteq> u) (map R (insert_before u new (map L xs))) = map L' xs"
      using Cons.IH[OF d] Cons.prems(2,3) by simp
    moreover have "inst_id (R (L x)) \<noteq> u" using x(1) assms(5) by simp
    then have "inst_id (L' x) \<noteq> u" using x(2) by simp
    ultimately show ?thesis using x by simp
  qed
qed

lemma same_id_same_inst:
  "distinct (map inst_id xs) \<Longrightarrow> y \<in> set xs \<Longrightarrow> y' \<in> set xs \<Longrightarrow> inst_id y = inst_id y' \<Longrightarrow> y = y'"
  by (auto simp: distinct_map dest: inj_onD)

lemma isnil_ids_member:
  "u \<in> set (isnil_ids m) \<longleftrightarrow> (\<exists>i \<in> set (all_insts m). calls ''runtime.isnil'' i \<and> inst_id i = u)"
  by (auto simp: isnil_ids_def)

lemma block_insts: "b \<in> set (blocks m) \<Longrightarrow> y \<in> set b \<Longrightarrow> y \<in> set (all_insts m)"
  by (auto simp: all_insts_blocks)

lemma lowerIsnilUse_step:
  assumes dist: "distinct (ids m0)"
    and ok: "pointer_operands_ok m0"
    and inv: "lowering m0 g c"
    and fi: "find_inst m0 u = Some i"
    and call: "calls ''runtime.isnil'' i"
    and gu: "g u = None"
  shows "\<exists>k c'. lowerIsnilUse u c = (None, c') \<and> lowering m0 (g(u \<mapsto> k)) c'"
proof -
  have cm: "c_mod c = map_blocks (map (lowered m0 g)) m0"
    and dom: "dom g \<subseteq> set (isnil_ids m0)"
    and ran: "\<forall>k \<in> ran g. k \<notin> set (handles m0)"
    and inj: "inj_on g (dom g)"
    and bound: "\<forall>h \<in> set (handles m0) \<union> ran g. h < fresh_id (c_mod c)"
    using inv by (auto simp: lowering_def)
  have dist': "distinct (map inst_id (all_insts m0))" using dist by (simp add: ids_def)
  have iin: "i \<in> set (all_insts m0)" and iid: "inst_id i = u" and uid: "u \<in> set (ids m0)"
    using find_inst_ids[OF fi] by simp_all
  have uis: "u \<in> set (isnil_ids m0)" using iin call iid by (auto simp: isnil_ids_member)
  have uh: "u \<in> set (handles m0)" using uid by (rule ids_handles)
  have ur: "u \<notin> ran g" using ran uh by auto
  obtain p args where body: "inst_body i = Call (VFunc ''runtime.isnil'') (p # args)"
    and np: "\<not> from_isnil m0 p" and nq: "\<not> from_isnil m0 (unwrap m0 p)"
    using isnil_call_shape[OF ok iin call] by blast
  define q where "q = unwrap m0 p"
  define k where "k = fresh_id (c_mod c)"
  define g' where "g' = g(u \<mapsto> k)"
  define R :: "inst \<Rightarrow> inst" where "R = (\<lambda>i. i\<lparr>inst_body := map_operands (subst_val u (VInst k I1)) (inst_body i)\<rparr>)"
  have kb: "\<forall>h \<in> set (handles m0) \<union> ran g. h < k" using bound by (simp add: k_def)
  have k1: "k \<notin> set (handles m0)" and k2: "k \<notin> ran g" and ku: "k \<noteq> u" using kb uh by auto
  have f: "find_inst (c_mod c) u = Some (lowered m0 g i)"
    using find_inst_lowered[OF ur gu, of m0] fi by (simp add: cm)
  have Li: "lowered m0 g i = i\<lparr>inst_body := map_operands (redirect g) (inst_body i)\<rparr>"
    using gu iid by (simp add: lowered_def)
  have op0: "Operand0 (inst_body (lowered m0 g i)) = p"
    using redirect_not_from_isnil[OF dom np] by (simp add: Li body Operand0_def)
  have ph: "b \<in> set (handles m0)" if "p = VInst b t" for b t
  proof -
    have "VInst b t \<in> set (operands (inst_body i))" using that by (simp add: body)
    then show ?thesis by (rule operand_handles[OF iin])
  qed
  have uw: "unwrap (c_mod c) p = q"
    unfolding cm q_def by (rule unwrap_lowered[OF dom ran np nq ph])
  define c' where "c' = c\<lparr>insert_point := Some u,
      c_mod := EraseFromParentAsInstruction u (ReplaceAllUsesWith u (VInst k I1)
                 (map_blocks (insert_before u (compare_null k q)) (c_mod c)))\<rparr>"
  have ev: "lowerIsnilUse u c = (None, c')"
    using lowerIsnilUse_eval[OF f] by (simp add: op0 uw k_def c'_def)
  have sq: "subst_val u (VInst k I1) q = q"
    using subst_not_from_isnil[OF uis nq] by (simp add: q_def)
  have Rnew: "R (compare_null k q) = compare_null k q"
    by (simp add: R_def compare_null_def sq)
  have sr: "subst_val u (VInst k I1) \<circ> redirect g = redirect g'"
    unfolding g'_def by (rule ext) (simp add: subst_redirect[OF gu ur])
  have other: "inst_id (lowered m0 g y) \<noteq> u \<and> R (lowered m0 g y) = lowered m0 g' y"
    if yin: "y \<in> set (all_insts m0)" and yu: "inst_id y \<noteq> u" for y
  proof (cases "g (inst_id y)")
    case None
    then have "g' (inst_id y) = None" using yu by (simp add: g'_def)
    then show ?thesis using None yu sr
      by (simp add: lowered_def R_def map_operands_comp)
  next
    case (Some k')
    then have k'u: "k' \<noteq> u" using ur by (auto simp: ran_def)
    have "inst_id y \<in> set (isnil_ids m0)" using Some dom by auto
    then obtain y' where y': "y' \<in> set (all_insts m0)" "calls ''runtime.isnil'' y'" "inst_id y' = inst_id y"
      by (auto simp: isnil_ids_member)
    then have "y' = y" using same_id_same_inst[OF dist' _ yin] by simp
    then have "calls ''runtime.isnil'' y" using y' by simp
    from isnil_call_shape[OF ok yin this] obtain py argsy where
      by': "inst_body y = Call (VFunc ''runtime.isnil'') (py # argsy)"
      and nqy: "\<not> from_isnil m0 (unwrap m0 py)" by blast
    have o: "Operand0 (inst_body y) = py" by (simp add: by' Operand0_def)
    have s: "subst_val u (VInst k I1) (unwrap m0 py) = unwrap m0 py"
      by (rule subst_not_from_isnil[OF uis nqy])
    have "g' (inst_id y) = Some k'" using Some yu by (simp add: g'_def)
    then show ?thesis using Some k'u s
      by (simp add: lowered_def R_def compare_null_def o)
  qed
  have self: "inst_id (lowered m0 g y) = u \<and> R (compare_null k q) = lowered m0 g' y"
    if yin: "y \<in> set (all_insts m0)" and yu: "inst_id y = u" for y
  proof -
    have "y = i" using same_id_same_inst[OF dist' yin iin] yu iid by simp
    then show ?thesis using gu iid Rnew
      by (simp add: lowered_def g'_def body Operand0_def q_def)
  qed
  have m': "c_mod c' = map_blocks (map (lowered m0 g')) m0"
  proof -
    have "c_mod c' = map_blocks (filter (\<lambda>i. inst_id i \<noteq> u) \<circ> (map R \<circ> (insert_before u (compare_null k q)
                        \<circ> map (lowered m0 g)))) m0"
      by (simp add: c'_def cm EraseFromParentAsInstruction_def ReplaceAllUsesWith_def
            map_blocks_comp R_def)
    also have "\<dots> = map_blocks (map (lowered m0 g')) m0"
    proof (rule map_blocks_cong)
      fix b assume b: "b \<in> set (blocks m0)"
      have db: "distinct (map inst_id b)" using dist b by (rule distinct_block)
      have "filter (\<lambda>i. inst_id i \<noteq> u) (map R (insert_before u (compare_null k q) (map (lowered m0 g) b)))
              = map (lowered m0 g') b"
      proof (rule lower_block_step[OF db])
        fix y assume "y \<in> set b" "inst_id y \<noteq> u"
        then show "inst_id (lowered m0 g y) \<noteq> u \<and> R (lowered m0 g y) = lowered m0 g' y"
          using other block_insts[OF b] by simp
      next
        fix y assume "y \<in> set b" "inst_id y = u"
        then show "inst_id (lowered m0 g y) = u \<and> R (compare_null k q) = lowered m0 g' y"
          using self block_insts[OF b] by simp
      next
        show "inst_id (compare_null k q) \<noteq> u" using ku by (simp add: compare_null_def)
      next
        fix x show "inst_id (R x) = inst_id x" by (simp add: R_def)
      qed
      then show "(filter (\<lambda>i. inst_id i \<noteq> u) \<circ> (map R \<circ> (insert_before u (compare_null k q)
                        \<circ> map (lowered m0 g)))) b = map (lowered m0 g') b" by simp
    qed
    finally show ?thesis .
  qed
  have kin: "k \<in> set (handles (c_mod c'))"
  proof -
    have "lowered m0 g' i \<in> set (all_insts (c_mod c'))"
      using iin by (simp add: m' all_insts_map)
    moreover have "inst_id (lowered m0 g' i) = k" by (simp add: lowered_id g'_def iid)
    ultimately have "k \<in> set (ids (c_mod c'))" by (force simp: ids_def)
    then show ?thesis by (rule ids_handles)
  qed
  then have kf: "k < fresh_id (c_mod c')" by (rule fresh_id_gt)
  have "dom g' \<subseteq> set (isnil_ids m0)" using dom uis by (auto simp: g'_def)
  moreover have "\<forall>x \<in> ran g'. x \<notin> set (handles m0)"
    using ran k1 by (auto simp: g'_def ran_def split: if_splits)
  moreover have "inj_on g' (dom g')"
    using inj k2 gu by (auto simp: g'_def inj_on_def ran_def dom_def split: if_splits)
  moreover have "\<forall>h \<in> set (handles m0) \<union> ran g'. h < fresh_id (c_mod c')"
  proof
    fix h assume "h \<in> set (handles m0) \<union> ran g'"
    then have "h = k \<or> h \<in> set (handles m0) \<union> ran g"
      by (auto simp: g'_def ran_def split: if_splits)
    then show "h < fresh_id (c_mod c')"
    proof
      assume "h = k"
      then show ?thesis using kf by simp
    next
      assume "h \<in> set (handles m0) \<union> ran g"
      then have "h < k" using kb by blast
      then show ?thesis using kf by simp
    qed
  qed
  ultimately have "lowering m0 g' c'" using m' by (simp add: lowering_def)
  then show ?thesis using ev unfolding g'_def by blast
qed

lemma lowerIsnil_loop:
  assumes dist: "distinct (ids m0)" and ok: "pointer_operands_ok m0"
  shows "lowering m0 g c \<Longrightarrow> distinct us
     \<Longrightarrow> (\<forall>u \<in> set us. g u = None \<and> (\<exists>i. find_inst m0 u = Some i \<and> calls ''runtime.isnil'' i))
     \<Longrightarrow> \<exists>g' c'. forEach lowerIsnilUse us c = (None, c') \<and> lowering m0 g' c'
           \<and> dom g' = dom g \<union> set us"
proof (induction us arbitrary: g c)
  case Nil
  then show ?case by auto
next
  case (Cons u us)
  from Cons.prems obtain i where fi: "find_inst m0 u = Some i" and call: "calls ''runtime.isnil'' i"
    and gu: "g u = None" by auto
  from lowerIsnilUse_step[OF dist ok Cons.prems(1) fi call gu] obtain k c1 where
    t: "lowerIsnilUse u c = (None, c1)" and inv1: "lowering m0 (g(u \<mapsto> k)) c1" by blast
  have d: "distinct us" and nu: "u \<notin> set us" using Cons.prems(2) by auto
  have pre: "\<forall>v \<in> set us. (g(u \<mapsto> k)) v = None \<and> (\<exists>i. find_inst m0 v = Some i \<and> calls ''runtime.isnil'' i)"
    using Cons.prems(3) nu by auto
  from Cons.IH[OF inv1 d pre] obtain g' c' where
    l: "forEach lowerIsnilUse us c1 = (None, c')"
    and inv': "lowering m0 g' c'" and dm: "dom g' = dom (g(u \<mapsto> k)) \<union> set us" by blast
  have "forEach lowerIsnilUse (u # us) c = (None, c')" using t l by simp
  moreover have "dom g' = dom g \<union> set (u # us)" using dm by auto
  ultimately show ?case using inv' by blast
qed

lemma uses_in_none: "(\<forall>x \<in> set xs. v \<notin> set (operands (inst_body x))) \<Longrightarrow> uses_in v xs = []"
  by (auto simp: uses_in_def filter_empty_conv)

lemma only_called_inst:
  assumes "only_called n m" "i \<in> set (all_insts m)"
  shows "case inst_body i of Call f args \<Rightarrow> VFunc n \<notin> set args | b \<Rightarrow> VFunc n \<notin> set (operands b)"
  using assms by (simp add: only_called_def list_all_iff)

lemma only_called_not_call:
  assumes "only_called n m" "i \<in> set (all_insts m)" "\<not> calls n i"
  shows "VFunc n \<notin> set (operands (inst_body i))"
  using only_called_inst[OF assms(1,2)] assms(3)
  by (cases "inst_body i") (auto simp: calls_def IsACallInst_def CalledValue_def)

lemma unwrap_not_func:
  assumes oc: "only_called n m" and p: "p \<noteq> VFunc n"
  shows "unwrap m p \<noteq> VFunc n"
proof (cases "IsABitCastInst m p")
  case False
  then show ?thesis using p by (simp add: unwrap_def)
next
  case True
  then obtain b t ib x where pv: "p = VInst b t" and f: "find_inst m b = Some ib"
    and bc: "inst_body ib = BitCast x"
    by (auto simp: IsABitCastInst_def inst_of_def split: val.splits option.splits instr.splits)
  have "ib \<in> set (all_insts m)" using find_inst_ids[OF f] by simp
  from only_called_inst[OF oc this] have "x \<noteq> VFunc n" using bc by auto
  moreover have "unwrap m p = x"
    using True pv f bc by (simp add: unwrap_def Operand0_of_def inst_of_def Operand0_def)
  ultimately show ?thesis by simp
qed

lemma redirect_func: "redirect g v = VFunc n \<Longrightarrow> v = VFunc n"
  by (cases v) (auto simp: redirect_def split: option.splits)

text \<open>
  Claim C4. When \<open>runtime.isnil\<close> is not in the module, the rewrite of lines 68 to 81
  does nothing and is no error. When it is, in a module whose handles are distinct,
  where \<open>runtime.isnil\<close> is an operand only as the called value of a call and where the calls
  have a pointer operand that is not itself a result of \<open>runtime.isnil\<close>: the rewrite ends
  without a fault; each call site is replaced, at its place in its block, by a new
  comparison for equality of its pointer operand with the null pointer of that operand's
  type, the operand being the operand of the cast when the call's operand 0 is a cast
  instruction (one layer removed) and operand 0 itself otherwise; every operand that was
  the result of a call is the result of its comparison; the calls are gone; and no
  instruction of the module has \<open>runtime.isnil\<close> as an operand any more.
\<close>

theorem isnil_calls_become_null_comparisons:
  "(NamedFunction (c_mod c) ''runtime.isnil'' = VNil \<longrightarrow> lowerIsnil c = (None, c))
   \<and> (NamedFunction (c_mod c) ''runtime.isnil'' \<noteq> VNil \<and> distinct (ids (c_mod c))
        \<and> only_called ''runtime.isnil'' (c_mod c) \<and> pointer_operands_ok (c_mod c) \<longrightarrow>
       (\<exists>g c'. lowerIsnil c = (None, c')
          \<and> c_mod c' = map_blocks (map (lowered (c_mod c) g)) (c_mod c)
          \<and> (\<forall>i \<in> set (all_insts (c_mod c)). (g (inst_id i) \<noteq> None) = calls ''runtime.isnil'' i)
          \<and> (\<forall>k \<in> ran g. k \<notin> set (handles (c_mod c)))
          \<and> inj_on g (dom g)
          \<and> getUses (c_mod c') (VFunc ''runtime.isnil'') = []))"
proof (intro conjI impI)
  assume "NamedFunction (c_mod c) ''runtime.isnil'' = VNil"
  then show "lowerIsnil c = (None, c)" by (simp add: lowerIsnil_def)
next
  let ?m = "c_mod c"
  let ?n = "''runtime.isnil''"
  assume a: "NamedFunction ?m ?n \<noteq> VNil \<and> distinct (ids ?m) \<and> only_called ?n ?m \<and> pointer_operands_ok ?m"
  then have decl: "NamedFunction ?m ?n = VFunc ?n" and dist: "distinct (ids ?m)"
    and oc: "only_called ?n ?m" and ok: "pointer_operands_ok ?m"
    by (auto simp: NamedFunction_def split: if_splits)
  have dist': "distinct (map inst_id (all_insts ?m))" using dist by (simp add: ids_def)
  have "map_blocks (map (lowered ?m Map.empty)) ?m = ?m"
    by (rule map_blocks_id) (simp add: lowered_empty map_idI)
  moreover have "\<forall>h \<in> set (handles ?m) \<union> ran (Map.empty :: nat \<Rightarrow> nat option). h < fresh_id ?m"
    by (auto intro: fresh_id_gt)
  ultimately have inv0: "lowering ?m Map.empty c" by (simp add: lowering_def)
  have us: "getUses ?m (VFunc ?n) = isnil_ids ?m"
    using getUses_only_called[OF oc] by (simp add: isnil_ids_def)
  have d: "distinct (isnil_ids ?m)"
    using dist' by (simp add: isnil_ids_def distinct_map_filter)
  have pre: "\<forall>u \<in> set (isnil_ids ?m). Map.empty u = (None :: nat option)
               \<and> (\<exists>i. find_inst ?m u = Some i \<and> calls ?n i)"
  proof
    fix u assume "u \<in> set (isnil_ids ?m)"
    then have "u \<in> set (map inst_id (filter (calls ?n) (all_insts ?m)))" by (simp add: isnil_ids_def)
    from find_filter_calls[OF dist' this]
    show "Map.empty u = (None :: nat option) \<and> (\<exists>i. find_inst ?m u = Some i \<and> calls ?n i)"
      by (simp add: find_inst_def)
  qed
  from lowerIsnil_loop[OF dist ok inv0 d pre] obtain g c' where
    l: "forEach lowerIsnilUse (isnil_ids ?m) c = (None, c')"
    and inv: "lowering ?m g c'" and dm: "dom g = set (isnil_ids ?m)" by auto
  have r: "lowerIsnil c = (None, c')"
    using l by (simp add: lowerIsnil_def decl us Let_def)
  have cm: "c_mod c' = map_blocks (map (lowered ?m g)) ?m"
    and ran: "\<forall>k \<in> ran g. k \<notin> set (handles ?m)" and inj: "inj_on g (dom g)"
    using inv by (auto simp: lowering_def)
  have domg: "\<forall>i \<in> set (all_insts ?m). (g (inst_id i) \<noteq> None) = calls ?n i"
  proof
    fix i assume i: "i \<in> set (all_insts ?m)"
    show "(g (inst_id i) \<noteq> None) = calls ?n i"
    proof
      assume "g (inst_id i) \<noteq> None"
      then have "inst_id i \<in> set (isnil_ids ?m)" using dm by auto
      then obtain y where y: "y \<in> set (all_insts ?m)" "calls ?n y" "inst_id y = inst_id i"
        by (auto simp: isnil_ids_member)
      then have "y = i" using same_id_same_inst[OF dist' _ i] by simp
      then show "calls ?n i" using y by simp
    next
      assume "calls ?n i"
      then have "inst_id i \<in> set (isnil_ids ?m)" using i by (auto simp: isnil_ids_member)
      then show "g (inst_id i) \<noteq> None" using dm by auto
    qed
  qed
  have nouse: "\<forall>x \<in> set (map (lowered ?m g) (all_insts ?m)). VFunc ?n \<notin> set (operands (inst_body x))"
  proof
    fix x assume "x \<in> set (map (lowered ?m g) (all_insts ?m))"
    then obtain i where i: "i \<in> set (all_insts ?m)" and x: "x = lowered ?m g i" by auto
    show "VFunc ?n \<notin> set (operands (inst_body x))"
    proof (cases "g (inst_id i)")
      case None
      then have "\<not> calls ?n i" using domg i by auto
      then have nin: "VFunc ?n \<notin> set (operands (inst_body i))" by (rule only_called_not_call[OF oc i])
      have "VFunc ?n \<notin> redirect g ` set (operands (inst_body i))"
      proof
        assume "VFunc ?n \<in> redirect g ` set (operands (inst_body i))"
        then obtain v where v: "v \<in> set (operands (inst_body i))" "redirect g v = VFunc ?n" by auto
        then have "v = VFunc ?n" using redirect_func by blast
        then show False using v nin by simp
      qed
      then show ?thesis using None x by (simp add: lowered_def operands_map_operands)
    next
      case (Some k)
      then have "calls ?n i" using domg i by auto
      from isnil_call_shape[OF ok i this] obtain p args where
        body: "inst_body i = Call (VFunc ?n) (p # args)" by blast
      have "p \<noteq> VFunc ?n" using only_called_inst[OF oc i] body by auto
      then have "unwrap ?m p \<noteq> VFunc ?n" by (rule unwrap_not_func[OF oc])
      then show ?thesis using Some x body
        by (simp add: lowered_def compare_null_def Operand0_def)
    qed
  qed
  have gone: "getUses (c_mod c') (VFunc ?n) = []"
    using uses_in_none[OF nouse] by (simp add: getUses_uses_in cm all_insts_map)
  show "\<exists>g c'. lowerIsnil c = (None, c')
          \<and> c_mod c' = map_blocks (map (lowered ?m g)) ?m
          \<and> (\<forall>i \<in> set (all_insts ?m). (g (inst_id i) \<noteq> None) = calls ?n i)
          \<and> (\<forall>k \<in> ran g. k \<notin> set (handles ?m))
          \<and> inj_on g (dom g)
          \<and> getUses (c_mod c') (VFunc ?n) = []"
    using r cm domg ran inj gone by blast
qed

lemma sample_hyps:
  "NamedFunction (c_mod sample) ''runtime.isnil'' \<noteq> VNil"
  "distinct (ids (c_mod sample))"
  "only_called ''runtime.isnil'' (c_mod sample)"
  "pointer_operands_ok (c_mod sample)"
  by (simp_all add: sample_def sample_module_def declared_def NamedFunction_def ids_def all_insts_def
        only_called_def pointer_operands_ok_def calls_def IsACallInst_def CalledValue_def
        from_isnil_def isnil_ids_def unwrap_def IsABitCastInst_def inst_of_def find_inst_def
        Operand0_of_def Operand0_def)

lemma sample_lowered:
  "c_mod (snd (lowerIsnil sample)) =
     [declared ''llvm.trap'', declared ''runtime._panic'', declared ''runtime.isnil'',
      \<lparr>fn_name = ''runtime.alloc'', fn_linkage = ExternalLinkage, fn_attrs = [], fn_blocks = [[]]\<rparr>,
      \<lparr>fn_name = ''main'', fn_linkage = ExternalLinkage, fn_attrs = [],
       fn_blocks =
         [[\<lparr>inst_id = 1, inst_body = BitCast (VOther 0 (Ty 1))\<rparr>,
           \<lparr>inst_id = 7, inst_body = ICmp IntEQ (VOther 0 (Ty 1)) (VNull (Ty 1))\<rparr>,
           \<lparr>inst_id = 8, inst_body = ICmp IntEQ (VOther 1 (Ty 2)) (VNull (Ty 2))\<rparr>,
           \<lparr>inst_id = 4, inst_body = Other 0 [VInst 7 I1, VInst 8 I1]\<rparr>],
          [\<lparr>inst_id = 5, inst_body = Call (VFunc ''runtime._panic'') [VOther 2 (Ty 3)]\<rparr>,
           \<lparr>inst_id = 6, inst_body = Other 1 []\<rparr>]]\<rparr>]"
  by (simp add: eval_defs sample_def sample_module_def declared_def)

text \<open>
  C4 on \<open>plain\<close>, which has no \<open>runtime.isnil\<close>, and on \<open>sample\<close>, which calls it twice, once
  through a cast and once directly; \<open>sample_lowered\<close> shows the module the rewrite leaves.
\<close>

theorem isnil_calls_become_null_comparisons_witness:
  "NamedFunction (c_mod plain) ''runtime.isnil'' = VNil
   \<and> lowerIsnil plain = (None, plain)
   \<and> NamedFunction (c_mod sample) ''runtime.isnil'' \<noteq> VNil
   \<and> distinct (ids (c_mod sample))
   \<and> only_called ''runtime.isnil'' (c_mod sample)
   \<and> pointer_operands_ok (c_mod sample)
   \<and> (\<exists>g c'. lowerIsnil sample = (None, c')
          \<and> c_mod c' = map_blocks (map (lowered (c_mod sample) g)) (c_mod sample)
          \<and> (\<forall>i \<in> set (all_insts (c_mod sample)). (g (inst_id i) \<noteq> None) = calls ''runtime.isnil'' i)
          \<and> (\<forall>k \<in> ran g. k \<notin> set (handles (c_mod sample)))
          \<and> inj_on g (dom g)
          \<and> getUses (c_mod c') (VFunc ''runtime.isnil'') = [])"
proof -
  have a: "NamedFunction (c_mod plain) ''runtime.isnil'' = VNil"
    by (simp add: NamedFunction_def plain_def declared_def)
  show ?thesis
    using isnil_calls_become_null_comparisons[of plain] isnil_calls_become_null_comparisons[of sample]
      a sample_hyps
    by blast
qed

text \<open>
  On \<open>sample\<close>, which declares \<open>llvm.trap\<close>, the trap rewrite puts one trap before the call
  of \<open>runtime._panic\<close> and changes nothing else.
\<close>

lemma sample_trapped:
  "replacePanicsWithTrap sample =
     (None, sample\<lparr>insert_point := Some 5,
        c_mod :=
          [declared ''llvm.trap'', declared ''runtime._panic'', declared ''runtime.isnil'',
           \<lparr>fn_name = ''runtime.alloc'', fn_linkage = ExternalLinkage, fn_attrs = [], fn_blocks = [[]]\<rparr>,
           \<lparr>fn_name = ''main'', fn_linkage = ExternalLinkage, fn_attrs = [],
            fn_blocks =
              [[\<lparr>inst_id = 1, inst_body = BitCast (VOther 0 (Ty 1))\<rparr>,
                \<lparr>inst_id = 2, inst_body = Call (VFunc ''runtime.isnil'') [VInst 1 (Ty 2)]\<rparr>,
                \<lparr>inst_id = 3, inst_body = Call (VFunc ''runtime.isnil'') [VOther 1 (Ty 2)]\<rparr>,
                \<lparr>inst_id = 4, inst_body = Other 0 [VInst 2 I1, VInst 3 I1]\<rparr>],
               [\<lparr>inst_id = 7, inst_body = Call (VFunc ''llvm.trap'') []\<rparr>,
                \<lparr>inst_id = 5, inst_body = Call (VFunc ''runtime._panic'') [VOther 2 (Ty 3)]\<rparr>,
                \<lparr>inst_id = 6, inst_body = Other 1 []\<rparr>]]\<rparr>]\<rparr>)"
  by (simp add: eval_defs sample_def sample_module_def declared_def)

text \<open>
  On \<open>escaping\<close> the use of \<open>runtime.runtimePanic\<close> as a value ends the rewrite with the
  panic of line 154.
\<close>

lemma escaping_panics:
  "fst (replacePanicsWithTrap escaping)
     = Some (GoPanic ''expected use of a panic function to be a call'')"
proof -
  have d: "distinct (ids (c_mod escaping))"
    and t: "NamedFunction (c_mod escaping) ''llvm.trap'' \<noteq> VNil"
    and n: "NamedFunction (c_mod escaping) ''runtime.runtimePanic'' \<noteq> VNil"
    and i: "\<lparr>inst_id = 2, inst_body = Other 7 [VFunc ''runtime.runtimePanic'', VOther 1 (Ty 2)]\<rparr>
           \<in> set (all_insts (c_mod escaping))"
    by (simp_all add: escaping_def escaping_module_def declared_def ids_def all_insts_def
          NamedFunction_def)
  show ?thesis
    by (rule replacePanicsWithTrap_panics[OF d t _ n i]) (simp_all add: calls_def IsACallInst_def)
qed

end
